theory Spec2Isabelle
  imports Main "HOL-Library.List_Lexorder"
begin

section \<open>JavaScript values\<close>

text \<open>
  The values that flow through \<^verbatim>\<open>src/index.ts\<close>: action arguments, cache keys, payloads,
  errors and store states. Arrays and objects carry the address that \<^verbatim>\<open>===\<close> compares;
  numbers are the integers plus \<^verbatim>\<open>NaN\<close> (the only number that is not identical to itself).
\<close>

datatype jsval =
    JUndefined
  | JNull
  | JBool bool
  | JNum int
  | JNaN
  | JStr string
  | JArr nat "jsval list"
  | JObj nat "(string \<times> jsval) list"

text \<open>Truthiness, as \<^verbatim>\<open>if (x)\<close>, \<^verbatim>\<open>!x\<close> and \<^verbatim>\<open>x || y\<close> read a value.\<close>

fun truthy :: "jsval \<Rightarrow> bool" where
  "truthy JUndefined = False"
| "truthy JNull = False"
| "truthy (JBool b) = b"
| "truthy (JNum n) = (n \<noteq> 0)"
| "truthy JNaN = False"
| "truthy (JStr s) = (s \<noteq> [])"
| "truthy (JArr a xs) = True"
| "truthy (JObj a fs) = True"

text \<open>Strict equality \<^verbatim>\<open>===\<close>: by value on primitives, by address on arrays and objects.\<close>

fun strict_eq :: "jsval \<Rightarrow> jsval \<Rightarrow> bool" where
  "strict_eq JUndefined JUndefined = True"
| "strict_eq JNull JNull = True"
| "strict_eq (JBool a) (JBool b) = (a = b)"
| "strict_eq (JNum a) (JNum b) = (a = b)"
| "strict_eq (JStr a) (JStr b) = (a = b)"
| "strict_eq (JArr a xs) (JArr b ys) = (a = b)"
| "strict_eq (JObj a fs) (JObj b gs) = (a = b)"
| "strict_eq x y = False"

text \<open>\<^verbatim>\<open>x == null\<close> holds of \<^verbatim>\<open>null\<close> and \<^verbatim>\<open>undefined\<close> only.\<close>

definition loose_eq_null :: "jsval \<Rightarrow> bool" where
  "loose_eq_null x = (case x of JUndefined \<Rightarrow> True | JNull \<Rightarrow> True | _ \<Rightarrow> False)"

datatype js_error = TypeError

text \<open>The decimal name of an index, the key under which an object holds element \<open>i\<close>.\<close>

fun dec_string :: "nat \<Rightarrow> string" where
  "dec_string n =
     (if n < 10 then [char_of (48 + n)]
      else dec_string (n div 10) @ [char_of (48 + n mod 10)])"

text \<open>
  The property read \<^verbatim>\<open>x.length\<close>: a \<^verbatim>\<open>TypeError\<close> on \<^verbatim>\<open>null\<close> and \<^verbatim>\<open>undefined\<close>, the
  length of a string or an array, an object's own \<^verbatim>\<open>length\<close> field, and \<^verbatim>\<open>undefined\<close> on
  the other primitives.
\<close>

fun js_length :: "jsval \<Rightarrow> js_error + jsval" where
  "js_length JUndefined = Inl TypeError"
| "js_length JNull = Inl TypeError"
| "js_length (JStr s) = Inr (JNum (int (length s)))"
| "js_length (JArr a xs) = Inr (JNum (int (length xs)))"
| "js_length (JObj a fs) =
     Inr (case map_of fs ''length'' of None \<Rightarrow> JUndefined | Some v \<Rightarrow> v)"
| "js_length x = Inr JUndefined"

text \<open>The element read \<^verbatim>\<open>x[i]\<close>; out of range it is \<^verbatim>\<open>undefined\<close>.\<close>

fun js_index :: "jsval \<Rightarrow> nat \<Rightarrow> js_error + jsval" where
  "js_index JUndefined i = Inl TypeError"
| "js_index JNull i = Inl TypeError"
| "js_index (JStr s) i = Inr (if i < length s then JStr [s ! i] else JUndefined)"
| "js_index (JArr a xs) i = Inr (if i < length xs then xs ! i else JUndefined)"
| "js_index (JObj a fs) i =
     Inr (case map_of fs (dec_string i) of None \<Rightarrow> JUndefined | Some v \<Rightarrow> v)"
| "js_index x i = Inr JUndefined"

section \<open>The argument dedup cache\<close>

text \<open>
  \<^verbatim>\<open>meta.opts.cache\<close> is absent, \<^verbatim>\<open>true\<close> or a function of the argument array. The
  metadata of an action declaration holds \<^verbatim>\<open>isAsync\<close>, the options, the call counter
  and the last cache key (\<^verbatim>\<open>undefined\<close> until the first call writes it).
\<close>

datatype cache_opt = CacheOff | CacheTrue | CacheFn "jsval \<Rightarrow> jsval"

record ActionMeta =
  isAsync :: bool
  opts_cache :: cache_opt
  opts_latest :: bool
  callCount :: nat
  cachedArguments :: jsval

text \<open>\<^verbatim>\<open>meta.opts.cache === true ? args : meta.opts.cache(args)\<close>\<close>

definition newCachedArguments :: "jsval \<Rightarrow> ActionMeta \<Rightarrow> jsval" where
  "newCachedArguments args meta =
     (case opts_cache meta of CacheFn f \<Rightarrow> f args | _ \<Rightarrow> args)"

text \<open>
  The \<^verbatim>\<open>for\<close> loop of \<^verbatim>\<open>checkCachedArguments\<close> over the stored array from index \<open>i\<close> on:
  \<open>Inr True\<close> at the first element that is not identical to the new key's.
\<close>

fun first_mismatch :: "jsval \<Rightarrow> jsval list \<Rightarrow> nat \<Rightarrow> js_error + bool" where
  "first_mismatch new [] i = Inr False"
| "first_mismatch new (c # cs) i =
     (case js_index new i of
        Inl e \<Rightarrow> Inl e
      | Inr x \<Rightarrow> if \<not> strict_eq x c then Inr True else first_mismatch new cs (Suc i))"

text \<open>
  \<^verbatim>\<open>checkCachedArguments(args, meta)\<close>: the flag it returns (\<open>False\<close> vetoes the call) and
  the metadata as it leaves it.
\<close>

definition checkCachedArguments :: "jsval \<Rightarrow> ActionMeta \<Rightarrow> js_error + (bool \<times> ActionMeta)" where
  "checkCachedArguments args meta =
     (case opts_cache meta of
        CacheOff \<Rightarrow> Inr (True, meta)
      | _ \<Rightarrow>
        let new = newCachedArguments args meta;
            cached = cachedArguments meta
        in if \<not> truthy cached then Inr (True, meta\<lparr>cachedArguments := new\<rparr>)
           else (case cached of
              JArr a cs \<Rightarrow>
                (case js_length new of
                   Inl e \<Rightarrow> Inl e
                 | Inr newlen \<Rightarrow>
                     if length cs = 0 \<and> strict_eq newlen (JNum 0) then Inr (True, meta)
                     else if \<not> strict_eq (JNum (int (length cs))) newlen
                       then Inr (True, meta\<lparr>cachedArguments := new\<rparr>)
                     else (case first_mismatch new cs 0 of
                        Inl e \<Rightarrow> Inl e
                      | Inr True \<Rightarrow> Inr (True, meta\<lparr>cachedArguments := new\<rparr>)
                      | Inr False \<Rightarrow> Inr (False, meta)))
            | _ \<Rightarrow>
                if \<not> strict_eq new cached then Inr (True, meta\<lparr>cachedArguments := new\<rparr>)
                else Inr (False, meta)))"

section \<open>The store's own reducer\<close>

text \<open>
  \<^verbatim>\<open>utils/action-type-manager\<close> and \<^verbatim>\<open>utils/is-redux-internal-action\<close> are not part of
  \<^verbatim>\<open>src/index.ts\<close>; the reducer takes them as parameters: \<open>getType\<close> is
  \<^verbatim>\<open>new ActionTypeManager(type).getType()\<close>.
\<close>

record TypeNamer =
  getType :: "string \<Rightarrow> string"
  isReduxInternalAction :: "string \<Rightarrow> bool"

record Action =
  act_type :: string
  act_payload :: jsval

type_synonym reducer_handler = "jsval \<Rightarrow> jsval \<Rightarrow> string \<Rightarrow> jsval"

record ReducerStore =
  initialState :: jsval
  handlerWithScopedTypes :: "string \<rightharpoonup> reducer_handler"

definition defaultActionHandler :: "jsval \<Rightarrow> jsval" where
  "defaultActionHandler state = state"

definition initialReducer :: "TypeNamer \<Rightarrow> ReducerStore \<Rightarrow> jsval \<Rightarrow> Action \<Rightarrow> jsval" where
  "initialReducer namer store state action =
     (if loose_eq_null state then initialState store
      else if isReduxInternalAction namer (act_type action) then state
      else (case handlerWithScopedTypes store (getType namer (act_type action)) of
              Some handler \<Rightarrow> handler state (act_payload action) (act_type action)
            | None \<Rightarrow> defaultActionHandler state))"

section \<open>Nested stores and the subscription notifier\<close>

text \<open>
  A store with the fields that \<^verbatim>\<open>setState\<close>, \<^verbatim>\<open>notifySubscribers\<close> and \<^verbatim>\<open>addInnerStore\<close>
  read and write: its own \<^verbatim>\<open>state\<close> field, its state-change subscribers (named by
  numbers), \<^verbatim>\<open>subscriptionsEnabled\<close>, the two projections and the inner stores in the order
  they were attached. Once a store is attached, \<^verbatim>\<open>addInnerStore\<close> has replaced its
  \<^verbatim>\<open>state\<close> by an accessor over the parent's state, so \<open>state_field\<close> is read on
  a root store only.
\<close>

datatype store = Store
  (state_field: jsval)
  (subscriptions: "nat list")
  (subscriptionsEnabled: bool)
  (selectLocalState: "(jsval \<Rightarrow> jsval) option")
  (selectGlobalState: "jsval \<Rightarrow> jsval")
  (innerStores: "store list")

text \<open>
  One invocation \<^verbatim>\<open>sub(this.state, prevState)\<close> of a state-change subscriber: the store
  it belongs to (the indices of the inner stores that lead to it from the root), the
  subscriber, and the two arguments.
\<close>

datatype call = Call (call_path: "nat list") (call_sub: nat) (call_state: jsval) (call_prev: jsval)

text \<open>
  \<^verbatim>\<open>if (x) return store.selectLocalState(x)\<close>, else \<^verbatim>\<open>undefined\<close>: the shape of both the
  \<^verbatim>\<open>state\<close> getter of an inner store and the projection of \<^verbatim>\<open>prevState\<close> in
  \<^verbatim>\<open>notifySubscribers\<close>.
\<close>

definition local_state :: "(jsval \<Rightarrow> jsval) \<Rightarrow> jsval \<Rightarrow> jsval" where
  "local_state R x = (if truthy x then R x else JUndefined)"

text \<open>
  \<^verbatim>\<open>notifySubscribers(prevState)\<close> on the store at path \<open>p\<close> whose \<^verbatim>\<open>this.state\<close> reads
  \<open>cur\<close>, and its \<^verbatim>\<open>innerStores.forEach\<close> from the \<open>k\<close>-th inner store on. An inner store
  without \<^verbatim>\<open>selectLocalState\<close> is skipped. The subscribers and the projections are the
  caller's code: they are taken to return normally and to leave the stores and the
  subscriber lists as they are, so that a notification is the list of the calls it makes.
\<close>

fun notifySubscribers :: "store \<Rightarrow> nat list \<Rightarrow> jsval \<Rightarrow> jsval \<Rightarrow> call list"
  and notifyInner :: "store list \<Rightarrow> nat list \<Rightarrow> nat \<Rightarrow> jsval \<Rightarrow> jsval \<Rightarrow> call list" where
  "notifySubscribers (Store s subs en sl sg inner) p cur prevState =
     map (\<lambda>sub. Call p sub cur prevState) subs @ notifyInner inner p 0 cur prevState"
| "notifyInner [] p k cur prevState = []"
| "notifyInner (st # rest) p k cur prevState =
     (case selectLocalState st of
        None \<Rightarrow> []
      | Some R \<Rightarrow> notifySubscribers st (p @ [k]) (local_state R cur) (local_state R prevState))
     @ notifyInner rest p (Suc k) cur prevState"

definition set_state_field :: "jsval \<Rightarrow> store \<Rightarrow> store" where
  "set_state_field v st =
     (case st of Store s subs en sl sg inner \<Rightarrow> Store v subs en sl sg inner)"

text \<open>\<^verbatim>\<open>setState(state)\<close> on a root store: the store it leaves and the subscriber calls it makes.\<close>

definition setState :: "store \<Rightarrow> jsval \<Rightarrow> store \<times> call list" where
  "setState this v =
     (let prevState = state_field this;
          this' = set_state_field v this
      in (this', if subscriptionsEnabled this'
                 then notifySubscribers this' [] (state_field this') prevState else []))"

text \<open>
  The read projections composed along a path: what the store at path \<open>q\<close> below \<open>st\<close>
  reads as its state when \<open>st\<close> reads \<open>x\<close>.
\<close>

primrec project :: "nat list \<Rightarrow> store \<Rightarrow> jsval \<Rightarrow> jsval" where
  "project [] st x = x"
| "project (k # q) st x =
     (if k < length (innerStores st) then
        (case selectLocalState (innerStores st ! k) of
           None \<Rightarrow> JUndefined
         | Some R \<Rightarrow> project q (innerStores st ! k) (local_state R x))
      else JUndefined)"

text \<open>
  The store that \<^verbatim>\<open>notifySubscribers\<close> reaches at path \<open>q\<close> below \<open>st\<close>: every inner
  store on the way must have a \<^verbatim>\<open>selectLocalState\<close>, whatever its own
  \<^verbatim>\<open>subscriptionsEnabled\<close> says. \<open>calls_at pth q st cur prev\<close> are the calls that its
  subscribers get, labelled with the path \<open>pth\<close>, when \<open>st\<close> is notified with \<open>cur\<close> and
  \<open>prev\<close>.
\<close>

primrec notified_at :: "nat list \<Rightarrow> store \<Rightarrow> store option" where
  "notified_at [] st = Some st"
| "notified_at (k # q) st =
     (if k < length (innerStores st) then
        (case selectLocalState (innerStores st ! k) of
           None \<Rightarrow> None
         | Some R \<Rightarrow> notified_at q (innerStores st ! k))
      else None)"

definition calls_at :: "nat list \<Rightarrow> nat list \<Rightarrow> store \<Rightarrow> jsval \<Rightarrow> jsval \<Rightarrow> call list" where
  "calls_at pth q st cur prev =
     (case notified_at q st of
        None \<Rightarrow> []
      | Some s \<Rightarrow> map (\<lambda>sub. Call pth sub (project q st cur) (project q st prev)) (subscriptions s))"

text \<open>
  \<^verbatim>\<open>addInnerStore(store, selectLocalState, selectGlobalState)\<close>: the inner store takes the
  two projections and joins \<^verbatim>\<open>innerStores\<close>. (The redirected \<^verbatim>\<open>getStore\<close> and the reducer
  list are not part of this model.)
\<close>

definition attach :: "store \<Rightarrow> (jsval \<Rightarrow> jsval) \<Rightarrow> (jsval \<Rightarrow> jsval) \<Rightarrow> store" where
  "attach st R W =
     (case st of Store s subs en sl sg inner \<Rightarrow> Store s subs en (Some R) W inner)"

definition addInnerStore ::
  "store \<Rightarrow> store \<Rightarrow> (jsval \<Rightarrow> jsval) \<Rightarrow> (jsval \<Rightarrow> jsval) \<Rightarrow> store" where
  "addInnerStore this st R W =
     (case this of Store s subs en sl sg inner \<Rightarrow>
        Store s subs en sl sg (inner @ [attach st R W]))"

text \<open>
  The store at a path below \<open>st\<close>, and \<^verbatim>\<open>addInnerStore\<close> called on the store at path \<open>p\<close>
  of a tree. The tree holds its inner stores by value, so attaching below the root
  rebuilds the stores on the way; a store is attached to one parent.
\<close>

primrec store_at :: "nat list \<Rightarrow> store \<Rightarrow> store option" where
  "store_at [] st = Some st"
| "store_at (k # q) st =
     (if k < length (innerStores st) then store_at q (innerStores st ! k) else None)"

primrec update_at :: "nat list \<Rightarrow> (store \<Rightarrow> store) \<Rightarrow> store \<Rightarrow> store" where
  "update_at [] f st = f st"
| "update_at (k # q) f st =
     (case st of Store s subs en sl sg inner \<Rightarrow>
        Store s subs en sl sg
          (if k < length inner then inner[k := update_at q f (inner ! k)] else inner))"

definition add_inner_at ::
  "store \<Rightarrow> nat list \<Rightarrow> store \<Rightarrow> (jsval \<Rightarrow> jsval) \<Rightarrow> (jsval \<Rightarrow> jsval) \<Rightarrow> store" where
  "add_inner_at root p st R W = update_at p (\<lambda>this. addInnerStore this st R W) root"

text \<open>
  \<^verbatim>\<open>addInnerStore\<close> also redefines the property \<^verbatim>\<open>state\<close> of the inner store as an
  accessor over \<^verbatim>\<open>this.state\<close> of the store it is attached to:
  \<^verbatim>\<open>get: () => { if (this.state) { return store.selectLocalState(this.state); } }\<close> and
  \<^verbatim>\<open>set: (state) => { this.state = store.selectGlobalState(state); }\<close>. There
  \<^verbatim>\<open>this.state\<close> is the state field when \<^verbatim>\<open>this\<close> is a root store, and again such an
  accessor when \<^verbatim>\<open>this\<close> is itself attached. So a read of \<^verbatim>\<open>state\<close> on the store at path
  \<open>p\<close> starts from the root's field and comes down through the getters on the path:
  \<open>state_get_from p st x\<close> is what the store at path \<open>p\<close> below \<open>st\<close> reads when \<open>st\<close>
  reads \<open>x\<close>. Calling a missing \<^verbatim>\<open>selectLocalState\<close> is a \<^verbatim>\<open>TypeError\<close>; a path that leads
  to no store has no accessor, and the model answers with the same error.
\<close>

primrec state_get_from :: "nat list \<Rightarrow> store \<Rightarrow> jsval \<Rightarrow> js_error + jsval" where
  "state_get_from [] st x = Inr x"
| "state_get_from (k # q) st x =
     (if k < length (innerStores st) then
        (if truthy x then
           (case selectLocalState (innerStores st ! k) of
              None \<Rightarrow> Inl TypeError
            | Some R \<Rightarrow> state_get_from q (innerStores st ! k) (R x))
         else state_get_from q (innerStores st ! k) JUndefined)
      else Inl TypeError)"

definition state_get :: "store \<Rightarrow> nat list \<Rightarrow> js_error + jsval" where
  "state_get root p = state_get_from p root (state_field root)"

text \<open>
  An assignment to \<^verbatim>\<open>state\<close> on the store at path \<open>p\<close> hands
  \<^verbatim>\<open>store.selectGlobalState(state)\<close> to the \<^verbatim>\<open>state\<close> of the store above, whose setter does
  the same, up to the root, whose field is assigned: \<open>global_value p st v\<close> is the value
  that arrives at \<open>st\<close>. No setter calls \<^verbatim>\<open>setState\<close> or a subscriber: \<open>state_set\<close> returns
  the tree it leaves and the subscriber calls it makes, none.
\<close>

primrec global_value :: "nat list \<Rightarrow> store \<Rightarrow> jsval \<Rightarrow> js_error + jsval" where
  "global_value [] st v = Inr v"
| "global_value (k # q) st v =
     (if k < length (innerStores st) then
        (case global_value q (innerStores st ! k) v of
           Inl e \<Rightarrow> Inl e
         | Inr u \<Rightarrow> Inr (selectGlobalState (innerStores st ! k) u))
      else Inl TypeError)"

definition state_set :: "store \<Rightarrow> nat list \<Rightarrow> jsval \<Rightarrow> js_error + store \<times> call list" where
  "state_set root p v =
     (case global_value p root v of
        Inl e \<Rightarrow> Inl e
      | Inr g \<Rightarrow> Inr (set_state_field g root, []))"

text \<open>
  What the specification's words ask of the write path, for comparison with
  \<open>state_set\<close>: "writing merges the write-projected value into the parent's state
  field". Merging two objects lays the fields of the written one over those the parent's
  state had, as \<^verbatim>\<open>Object.assign\<close> does; any other pair has nothing to merge.
\<close>

fun put_field :: "string \<Rightarrow> jsval \<Rightarrow> (string \<times> jsval) list \<Rightarrow> (string \<times> jsval) list" where
  "put_field k v [] = [(k, v)]"
| "put_field k v ((k', v') # fs) =
     (if k' = k then (k, v) # fs else (k', v') # put_field k v fs)"

fun assign_fields :: "(string \<times> jsval) list \<Rightarrow> (string \<times> jsval) list \<Rightarrow> (string \<times> jsval) list" where
  "assign_fields fs [] = fs"
| "assign_fields fs ((k, v) # gs) = assign_fields (put_field k v fs) gs"

definition spec_merge_write :: "jsval \<Rightarrow> jsval \<Rightarrow> jsval" where
  "spec_merge_write old new =
     (case old of
        JObj a fs \<Rightarrow> (case new of JObj b gs \<Rightarrow> JObj a (assign_fields fs gs) | _ \<Rightarrow> new)
      | _ \<Rightarrow> new)"

text \<open>
  Stores for the concrete instances below: a tree with an inner store whose subscriptions
  are disabled and one without a read projection; the same tree before its first state;
  a root with state \<open>{a: 1, b: 2}\<close>; and that root with an inner store attached whose
  read projection is \<^verbatim>\<open>x => 7\<close>.
\<close>

definition example_tree :: store where
  "example_tree =
     Store (JObj 1 [(''n'', JNum 1)]) [1, 2] True None (\<lambda>x. x)
       [Store JNull [3] True (Some (\<lambda>x. JNum 7)) (\<lambda>x. x)
          [Store JNull [5] False (Some (\<lambda>x. x)) (\<lambda>x. x) []],
        Store JNull [4] True (Some (\<lambda>x. JNull)) (\<lambda>x. x) [],
        Store JNull [6] True None (\<lambda>x. x)
          [Store JNull [7] True (Some (\<lambda>x. x)) (\<lambda>x. x) []]]"

definition fresh_tree :: store where
  "fresh_tree = set_state_field JUndefined example_tree"

definition parent_ab :: store where
  "parent_ab = Store (JObj 1 [(''a'', JNum 1), (''b'', JNum 2)]) [9] True None (\<lambda>x. x) []"

definition child_plain :: store where
  "child_plain = Store JUndefined [] True None (\<lambda>x. x) []"

definition nested_ab :: store where
  "nested_ab = add_inner_at parent_ab [] child_plain (\<lambda>x. JNum 7) (\<lambda>x. x)"

section \<open>The action dispatch engine\<close>

text \<open>
  The model follows one action instance of one store through any number of invocations.
  An \<^verbatim>\<open>async\<close> function runs to its first \<^verbatim>\<open>await\<close> inside the call and resumes in a
  later turn; each such piece is one step of the model, and the steps of different
  invocations interleave as the events say. The store is wired to an underlying store
  (\<^verbatim>\<open>this.store.dispatch\<close> is defined), the projections, the cache function, the
  subscribers and the underlying \<^verbatim>\<open>dispatch\<close> do not throw, and a payload is either a
  promise or a value without a \<^verbatim>\<open>then\<close>.
\<close>

text \<open>
  \<^verbatim>\<open>ActionStates\<close> and the type strings come from \<^verbatim>\<open>utils/action-type-manager\<close>, which is
  not part of \<^verbatim>\<open>src/index.ts\<close>: the type of a dispatched action is kept symbolic, the
  action's base type (\<^verbatim>\<open>typeManager.getType()\<close>) or the base type with a lifecycle state
  (\<^verbatim>\<open>typeManager.getTypeWithState(state)\<close>).
\<close>

datatype ActionStates = START | SUCCESS | ERROR

datatype dispatched_type = BaseType | TypeWithState ActionStates

datatype settlement = Resolved jsval | Rejected jsval

datatype subscribers = OwnSubscribers | ParentSubscribers

text \<open>
  What an invocation does that is seen outside it, in the order it happens; the first
  number is the invocation. \<open>PayloadFnCalled\<close> is the call \<^verbatim>\<open>meta.payloadFn.apply(this, args)\<close>,
  \<open>HandleError\<close> the call \<^verbatim>\<open>this.handleError(e, type)\<close>, \<open>ActionStateNotified\<close> the
  \<^verbatim>\<open>actionStateSubscriptions.forEach\<close> of \<^verbatim>\<open>setActionStateAndDispatch\<close>, \<open>StoreDispatch\<close> a
  call \<^verbatim>\<open>this.getStore().dispatch({ type, payload })\<close>, and \<open>DeferredResolve\<close> and
  \<open>DeferredReject\<close> the calls \<^verbatim>\<open>resolve()\<close> and \<^verbatim>\<open>reject(error)\<close> on the deferred at the
  given address.
\<close>

datatype effect =
    PayloadFnCalled nat
  | HandleError nat jsval
  | ActionStateNotified nat subscribers ActionStates
  | StoreDispatch nat dispatched_type jsval
  | DeferredResolve nat nat
  | DeferredReject nat nat jsval

text \<open>
  Modelled from the spec: the class \<^verbatim>\<open>Deferred\<close> of \<^verbatim>\<open>utils/deferred\<close> is not part of
  \<^verbatim>\<open>src/index.ts\<close>. Section 4.2 of the specification: creating one from a previous one
  has no effect on the previous one; \<^verbatim>\<open>resolve()\<close> settles it successfully exactly once
  and is a no-op on a settled one; \<^verbatim>\<open>reject(error)\<close> settles it with the failure exactly
  once; \<^verbatim>\<open>subscribedTo\<close> is a flag. \<open>created_by\<close> records the invocation whose
  \<^verbatim>\<open>dispatch\<close> created it.
\<close>

record Deferred =
  previous :: "nat option"
  subscribedTo :: bool
  settled :: "settlement option"
  created_by :: nat

definition new_Deferred :: "nat option \<Rightarrow> nat \<Rightarrow> Deferred" where
  "new_Deferred prev i =
     \<lparr>previous = prev, subscribedTo = False, settled = None, created_by = i\<rparr>"

definition Deferred_resolve :: "Deferred \<Rightarrow> Deferred" where
  "Deferred_resolve d =
     (if settled d = None then d\<lparr>settled := Some (Resolved JUndefined)\<rparr> else d)"

definition Deferred_reject :: "jsval \<Rightarrow> Deferred \<Rightarrow> Deferred" where
  "Deferred_reject e d =
     (if settled d = None then d\<lparr>settled := Some (Rejected e)\<rparr> else d)"

text \<open>
  An invocation: the branch of \<^verbatim>\<open>action\<close> and \<^verbatim>\<open>dispatch\<close> it took, where it stands, and
  what \<^verbatim>\<open>await payload\<close> produced in \<^verbatim>\<open>dispatch\<close> once it has.
\<close>

datatype route = Vetoed | ThrewSync | SyncRoute | PromiseRoute | AsyncRoute

datatype phase =
    AwaitPayload "nat option"
  | AwaitDispatch settlement
  | Returned settlement
  | Threw "js_error + jsval"

text \<open>
  \<open>AwaitPayload (Some n)\<close>: the async wrapper of \<^verbatim>\<open>wrapPayloadCreator\<close> is suspended at
  \<^verbatim>\<open>await promise\<close> with \<^verbatim>\<open>callNumber = n\<close>. \<open>AwaitPayload None\<close>: the payload handed to
  \<^verbatim>\<open>dispatch\<close> is the payload function's own promise, still pending. \<open>AwaitDispatch r\<close>:
  the payload has settled with \<open>r\<close> and \<^verbatim>\<open>dispatch\<close> has not yet resumed from
  \<^verbatim>\<open>await payload\<close>. \<open>Returned r\<close>: the promise the caller holds has settled with \<open>r\<close>.
  \<open>Threw\<close>: the call threw before returning a promise.
\<close>

record invocation =
  inv_route :: route
  inv_phase :: phase
  inv_awaited :: "settlement option"

text \<open>
  What the store contributes to a dispatch: whether \<^verbatim>\<open>this.handleError\<close> and
  \<^verbatim>\<open>this.parentStore\<close> are set, \<^verbatim>\<open>this.selectGlobalState\<close>, and the error that
  \<^verbatim>\<open>utils/assert\<close> (not part of \<^verbatim>\<open>src/index.ts\<close>) throws when the async wrapper finds that
  the payload function did not return a promise.
\<close>

record DispatchCtx =
  handleError_defined :: bool
  parentStore_defined :: bool
  ctx_selectGlobalState :: "jsval \<Rightarrow> jsval"
  assertion_error :: jsval

text \<open>
  The state: the declaration's metadata, the action instance's \<^verbatim>\<open>state\<close> and \<^verbatim>\<open>deferred\<close>
  (an address into the deferreds created so far), the invocations, the calls of
  \<^verbatim>\<open>waitForAction\<close> (what each returned: nothing, or the promise of the deferred at an
  address) and the effects so far.
\<close>

record world =
  meta :: ActionMeta
  action_state :: "ActionStates option"
  action_deferred :: "nat option"
  deferreds :: "Deferred list"
  invocations :: "invocation list"
  waits :: "nat option list"
  log :: "effect list"

definition emit :: "effect list \<Rightarrow> world \<Rightarrow> world" where
  "emit es w = w\<lparr>log := log w @ es\<rparr>"

definition add_invocation :: "route \<Rightarrow> phase \<Rightarrow> world \<Rightarrow> world" where
  "add_invocation r ph w =
     w\<lparr>invocations := invocations w @ [\<lparr>inv_route = r, inv_phase = ph, inv_awaited = None\<rparr>]\<rparr>"

text \<open>
  The payload function is the caller's code. An invocation says what it did: threw,
  returned a value that is not a promise, or returned a promise (which settles later, by
  a \<open>PayloadSettles\<close> event).
\<close>

datatype payload_behaviour = Throws jsval | ReturnsValue jsval | ReturnsPromise

datatype wrapped = WThrew jsval | WValue jsval | WPromise phase

text \<open>
  The function returned by \<^verbatim>\<open>wrapPayloadCreator\<close>, up to its first suspension: \<^verbatim>\<open>bound\<close>
  itself without \<^verbatim>\<open>handleError\<close>; the async wrapper that catches every failure, counts
  the call once the payload function has returned a promise, and awaits it; the sync
  wrapper that counts the call first.
\<close>

definition wrapPayloadCreator ::
  "DispatchCtx \<Rightarrow> nat \<Rightarrow> payload_behaviour \<Rightarrow> world \<Rightarrow> wrapped \<times> world" where
  "wrapPayloadCreator ctx i b w =
     (if \<not> handleError_defined ctx then
        (case b of
           Throws e \<Rightarrow> (WThrew e, emit [PayloadFnCalled i] w)
         | ReturnsValue v \<Rightarrow> (WValue v, emit [PayloadFnCalled i] w)
         | ReturnsPromise \<Rightarrow> (WPromise (AwaitPayload None), emit [PayloadFnCalled i] w))
      else if isAsync (meta w) then
        (case b of
           Throws e \<Rightarrow>
             (WPromise (AwaitDispatch (Rejected e)), emit [PayloadFnCalled i, HandleError i e] w)
         | ReturnsValue v \<Rightarrow>
             (WPromise (AwaitDispatch (Rejected (assertion_error ctx))),
              emit [PayloadFnCalled i, HandleError i (assertion_error ctx)] w)
         | ReturnsPromise \<Rightarrow>
             (let callNumber = Suc (callCount (meta w))
              in (WPromise (AwaitPayload (Some callNumber)),
                  emit [PayloadFnCalled i] (w\<lparr>meta := (meta w)\<lparr>callCount := callNumber\<rparr>\<rparr>))))
      else
        (let w1 = w\<lparr>meta := (meta w)\<lparr>callCount := Suc (callCount (meta w))\<rparr>\<rparr>
         in case b of
              Throws e \<Rightarrow> (WThrew e, emit [PayloadFnCalled i, HandleError i e] w1)
            | ReturnsValue v \<Rightarrow> (WValue v, emit [PayloadFnCalled i] w1)
            | ReturnsPromise \<Rightarrow> (WPromise (AwaitPayload None), emit [PayloadFnCalled i] w1)))"

text \<open>\<^verbatim>\<open>setActionStateAndDispatch(action, type, state, payload)\<close>, called by invocation \<open>i\<close>.\<close>

definition setActionStateAndDispatch ::
  "DispatchCtx \<Rightarrow> nat \<Rightarrow> ActionStates \<Rightarrow> jsval \<Rightarrow> world \<Rightarrow> world" where
  "setActionStateAndDispatch ctx i st payload w =
     emit [ActionStateNotified i
             (if parentStore_defined ctx then ParentSubscribers else OwnSubscribers) st,
           StoreDispatch i (TypeWithState st) payload]
       (w\<lparr>action_state := Some st\<rparr>)"

text \<open>\<^verbatim>\<open>if (action.deferred) { action.deferred!.resolve(); }\<close>\<close>

definition resolve_deferred :: "nat \<Rightarrow> world \<Rightarrow> world" where
  "resolve_deferred i w =
     (case action_deferred w of
        None \<Rightarrow> w
      | Some d \<Rightarrow>
          emit [DeferredResolve i d]
            (w\<lparr>deferreds := (deferreds w)[d := Deferred_resolve (deferreds w ! d)]\<rparr>))"

text \<open>\<^verbatim>\<open>if (action.deferred && action.deferred.subscribedTo) { action.deferred!.reject(error); }\<close>\<close>

definition reject_deferred :: "nat \<Rightarrow> jsval \<Rightarrow> world \<Rightarrow> world" where
  "reject_deferred i e w =
     (case action_deferred w of
        None \<Rightarrow> w
      | Some d \<Rightarrow>
          if subscribedTo (deferreds w ! d)
          then emit [DeferredReject i d e]
                 (w\<lparr>deferreds := (deferreds w)[d := Deferred_reject e (deferreds w ! d)]\<rparr>)
          else w)"

text \<open>
  \<^verbatim>\<open>actionCreatorArgs.length <= 1 ? actionCreatorArgs[1] : actionCreatorArgs\<close>, for the
  argument array at address \<open>a\<close> with elements \<open>xs\<close>.
\<close>

definition startPayload :: "nat \<Rightarrow> jsval list \<Rightarrow> jsval" where
  "startPayload a xs =
     (if length xs \<le> 1 then (if 1 < length xs then xs ! 1 else JUndefined) else JArr a xs)"

text \<open>
  \<^verbatim>\<open>dispatch\<close> up to its first suspension, for invocation \<open>i\<close>: the new deferred, then the
  three cases in the order of the source.
\<close>

definition dispatch ::
  "DispatchCtx \<Rightarrow> nat \<Rightarrow> wrapped \<Rightarrow> nat \<Rightarrow> jsval list \<Rightarrow> world \<Rightarrow> world" where
  "dispatch ctx i payload a xs w =
     (let w1 = w\<lparr>deferreds := deferreds w @ [new_Deferred (action_deferred w) i],
                 action_deferred := Some (length (deferreds w))\<rparr>
      in case payload of
           WPromise ph \<Rightarrow>
             if \<not> isAsync (meta w1) then add_invocation PromiseRoute ph w1
             else add_invocation AsyncRoute ph
                    (setActionStateAndDispatch ctx i START (startPayload a xs) w1)
         | WValue v \<Rightarrow>
             add_invocation SyncRoute (Returned (Resolved v))
               ((resolve_deferred i
                   (emit [StoreDispatch i BaseType (ctx_selectGlobalState ctx v)] w1))
                \<lparr>action_deferred := None\<rparr>)
         | WThrew e \<Rightarrow> add_invocation ThrewSync (Threw (Inr e)) w)"

text \<open>
  The function \<^verbatim>\<open>action\<close> that \<^verbatim>\<open>createActions\<close> builds, called with the argument array at
  address \<open>a\<close> with elements \<open>xs\<close>: the dedup check, then the wrapped payload function,
  then \<^verbatim>\<open>dispatch\<close>.
\<close>

definition action_call ::
  "DispatchCtx \<Rightarrow> nat \<Rightarrow> jsval list \<Rightarrow> payload_behaviour \<Rightarrow> world \<Rightarrow> world" where
  "action_call ctx a xs b w =
     (case checkCachedArguments (JArr a xs) (meta w) of
        Inl e \<Rightarrow> add_invocation ThrewSync (Threw (Inl e)) w
      | Inr (run, meta') \<Rightarrow>
          if \<not> run
          then add_invocation Vetoed (Returned (Resolved JUndefined)) (w\<lparr>meta := meta'\<rparr>)
          else (case wrapPayloadCreator ctx (length (invocations w)) b (w\<lparr>meta := meta'\<rparr>) of
                  (WThrew e, w2) \<Rightarrow> add_invocation ThrewSync (Threw (Inr e)) w2
                | (payload, w2) \<Rightarrow> dispatch ctx (length (invocations w)) payload a xs w2))"

definition set_phase :: "nat \<Rightarrow> phase \<Rightarrow> world \<Rightarrow> world" where
  "set_phase i ph w =
     w\<lparr>invocations := (invocations w)[i := (invocations w ! i)\<lparr>inv_phase := ph\<rparr>]\<rparr>"

definition finish :: "nat \<Rightarrow> settlement \<Rightarrow> settlement \<Rightarrow> world \<Rightarrow> world" where
  "finish i awaited result w =
     w\<lparr>invocations := (invocations w)
          [i := (invocations w ! i)\<lparr>inv_phase := Returned result, inv_awaited := Some awaited\<rparr>]\<rparr>"

text \<open>
  The payload promise of invocation \<open>i\<close> settles with \<open>r\<close>. The async wrapper resumes
  after \<^verbatim>\<open>await promise\<close>: a result is replaced by \<^verbatim>\<open>null\<close> when \<^verbatim>\<open>latest\<close> is set and the
  call counter has moved on, a failure goes to \<^verbatim>\<open>handleError\<close> and is thrown again.
  Without the async wrapper the promise is the payload itself.
\<close>

definition payloadSettles :: "nat \<Rightarrow> settlement \<Rightarrow> world \<Rightarrow> world" where
  "payloadSettles i r w =
     (if i < length (invocations w) then
        (case inv_phase (invocations w ! i) of
           AwaitPayload (Some callNumber) \<Rightarrow>
             (case r of
                Resolved ret \<Rightarrow>
                  if opts_latest (meta w) \<and> callNumber \<noteq> callCount (meta w)
                  then set_phase i (AwaitDispatch (Resolved JNull)) w
                  else set_phase i (AwaitDispatch (Resolved ret)) w
              | Rejected e \<Rightarrow>
                  set_phase i (AwaitDispatch (Rejected e)) (emit [HandleError i e] w))
         | AwaitPayload None \<Rightarrow> set_phase i (AwaitDispatch r) w
         | _ \<Rightarrow> w)
      else w)"

text \<open>
  \<^verbatim>\<open>dispatch\<close> of invocation \<open>i\<close> resumes from \<^verbatim>\<open>await payload\<close>: the \<^verbatim>\<open>try\<close> and
  \<^verbatim>\<open>catch\<close> blocks of the async case and of the case of a promise from a handler that is
  not declared async.
\<close>

definition dispatchResumes :: "DispatchCtx \<Rightarrow> nat \<Rightarrow> world \<Rightarrow> world" where
  "dispatchResumes ctx i w =
     (if i < length (invocations w) then
        (case inv_phase (invocations w ! i) of
           AwaitDispatch r \<Rightarrow>
             (case r of
                Resolved v \<Rightarrow>
                  (let data = (if truthy v then v else JNull);
                       w1 = (if \<not> strict_eq data JNull then
                               (if inv_route (invocations w ! i) = AsyncRoute
                                then setActionStateAndDispatch ctx i SUCCESS
                                       (ctx_selectGlobalState ctx data) w
                                else emit [StoreDispatch i BaseType
                                             (ctx_selectGlobalState ctx data)] w)
                             else w)
                   in finish i r (Resolved data)
                        ((resolve_deferred i w1)\<lparr>action_deferred := None\<rparr>))
              | Rejected e \<Rightarrow>
                  (let w1 = (if inv_route (invocations w ! i) = AsyncRoute
                             then setActionStateAndDispatch ctx i ERROR e w else w)
                   in finish i r (Rejected e)
                        ((reject_deferred i e w1)\<lparr>action_deferred := None\<rparr>)))
         | _ \<Rightarrow> w)
      else w)"

text \<open>
  \<^verbatim>\<open>waitForAction(action)\<close>: with no deferred it returns at once; otherwise it marks the
  deferred as subscribed to and returns its promise.
\<close>

definition waitForAction :: "world \<Rightarrow> world" where
  "waitForAction w =
     (case action_deferred w of
        None \<Rightarrow> w\<lparr>waits := waits w @ [None]\<rparr>
      | Some d \<Rightarrow>
          w\<lparr>deferreds := (deferreds w)[d := (deferreds w ! d)\<lparr>subscribedTo := True\<rparr>],
            waits := waits w @ [Some d]\<rparr>)"

text \<open>
  How the \<open>k\<close>-th call of \<^verbatim>\<open>waitForAction\<close> stands: settled with \<^verbatim>\<open>undefined\<close> when it
  returned at once, and as the deferred's promise otherwise (\<open>None\<close>: still pending).
\<close>

definition wait_result :: "world \<Rightarrow> nat \<Rightarrow> settlement option" where
  "wait_result w k =
     (case waits w ! k of
        None \<Rightarrow> Some (Resolved JUndefined)
      | Some d \<Rightarrow> settled (deferreds w ! d))"

datatype event =
    Invoke nat "jsval list" payload_behaviour
  | PayloadSettles nat settlement
  | DispatchResumes nat
  | WaitForAction

fun step :: "DispatchCtx \<Rightarrow> event \<Rightarrow> world \<Rightarrow> world" where
  "step ctx (Invoke a xs b) w = action_call ctx a xs b w"
| "step ctx (PayloadSettles i r) w = payloadSettles i r w"
| "step ctx (DispatchResumes i) w = dispatchResumes ctx i w"
| "step ctx WaitForAction w = waitForAction w"

definition run :: "DispatchCtx \<Rightarrow> event list \<Rightarrow> world \<Rightarrow> world" where
  "run ctx evs w = foldl (\<lambda>w e. step ctx e w) w evs"

text \<open>A store's action before its first call.\<close>

definition init :: "ActionMeta \<Rightarrow> world" where
  "init m =
     \<lparr>meta = m, action_state = None, action_deferred = None, deferreds = [],
      invocations = [], waits = [], log = []\<rparr>"

definition declared :: "bool \<Rightarrow> cache_opt \<Rightarrow> bool \<Rightarrow> ActionMeta" where
  "declared async c l =
     \<lparr>isAsync = async, opts_cache = c, opts_latest = l, callCount = 0,
      cachedArguments = JUndefined\<rparr>"

text \<open>The lifecycle states of the actions that invocation \<open>i\<close> dispatched, in order.\<close>

fun lifecycle_of :: "nat \<Rightarrow> effect \<Rightarrow> ActionStates option" where
  "lifecycle_of i (StoreDispatch j (TypeWithState s) p) = (if j = i then Some s else None)"
| "lifecycle_of i e = None"

definition lifecycles :: "nat \<Rightarrow> effect list \<Rightarrow> ActionStates list" where
  "lifecycles i es = List.map_filter (lifecycle_of i) es"

definition plain_ctx :: DispatchCtx where
  "plain_ctx = \<lparr>handleError_defined = True, parentStore_defined = False,
     ctx_selectGlobalState = (\<lambda>x. x), assertion_error = JStr ''assert''\<rparr>"

section \<open>Notions for the properties of the dispatch engine\<close>

text \<open>The invocation that an effect belongs to.\<close>

fun tag :: "effect \<Rightarrow> nat" where
  "tag (PayloadFnCalled i) = i"
| "tag (HandleError i e) = i"
| "tag (ActionStateNotified i t s) = i"
| "tag (StoreDispatch i t p) = i"
| "tag (DeferredResolve i d) = i"
| "tag (DeferredReject i d e) = i"

text \<open>
  An invocation is pending until \<^verbatim>\<open>dispatch\<close> has resumed from \<^verbatim>\<open>await payload\<close>. The
  lifecycle states that an invocation on the async route has dispatched follow from what
  the payload settled with; \<open>engine_inv\<close> says so of every invocation, and that every
  effect belongs to an invocation that exists.
\<close>

fun pending :: "phase \<Rightarrow> bool" where
  "pending (AwaitPayload n) = True"
| "pending (AwaitDispatch r) = True"
| "pending ph = False"

definition expected :: "invocation \<Rightarrow> ActionStates list" where
  "expected iv =
     (case inv_awaited iv of
        None \<Rightarrow> [START]
      | Some (Resolved v) \<Rightarrow> if truthy v then [START, SUCCESS] else [START]
      | Some (Rejected e) \<Rightarrow> [START, ERROR])"

definition async_ok :: "effect list \<Rightarrow> nat \<Rightarrow> invocation \<Rightarrow> bool" where
  "async_ok es i iv =
     (lifecycles i es = expected iv \<and>
      (case inv_phase iv of
         Returned r \<Rightarrow> inv_awaited iv \<noteq> None
       | Threw x \<Rightarrow> False
       | _ \<Rightarrow> inv_awaited iv = None))"

definition engine_inv :: "world \<Rightarrow> bool" where
  "engine_inv w =
     ((\<forall>e \<in> set (log w). tag e < length (invocations w)) \<and>
      (\<forall>i < length (invocations w).
          inv_route (invocations w ! i) = AsyncRoute \<longrightarrow>
          async_ok (log w) i (invocations w ! i)))"

text \<open>The calls of \<^verbatim>\<open>resolve\<close> and \<^verbatim>\<open>reject\<close> on deferreds among some effects.\<close>

fun is_deferred_call :: "effect \<Rightarrow> bool" where
  "is_deferred_call (DeferredResolve i d) = True"
| "is_deferred_call (DeferredReject i d e) = True"
| "is_deferred_call e = False"

definition deferred_calls :: "effect list \<Rightarrow> effect list" where
  "deferred_calls es = filter is_deferred_call es"

fun is_reject :: "effect \<Rightarrow> bool" where
  "is_reject (DeferredReject i d e) = True"
| "is_reject e = False"

fun is_rejected :: "settlement option \<Rightarrow> bool" where
  "is_rejected (Some (Rejected e)) = True"
| "is_rejected s = False"

text \<open>
  No deferred has been subscribed to or rejected, the action's deferred exists, and no
  \<^verbatim>\<open>reject\<close> has been called: what holds as long as nobody calls \<^verbatim>\<open>waitForAction\<close>.
\<close>

definition unsubscribed :: "world \<Rightarrow> bool" where
  "unsubscribed w =
     ((\<forall>d \<in> set (deferreds w). \<not> subscribedTo d \<and> \<not> is_rejected (settled d)) \<and>
      (\<forall>d. action_deferred w = Some d \<longrightarrow> d < length (deferreds w)) \<and>
      (\<forall>e \<in> set (log w). \<not> is_reject e))"

text \<open>
  States for the concrete instances below: an async action with \<^verbatim>\<open>cache: true\<close> after one
  call; two overlapping calls of which the second one's payload has resolved; a call that
  is waited for and whose payload has been rejected.
\<close>

definition cached_once :: world where
  "cached_once = run plain_ctx [Invoke 0 [JNum 1, JStr ''a''] ReturnsPromise]
     (init (declared True CacheTrue False))"

definition two_in_flight :: world where
  "two_in_flight = run plain_ctx
      [Invoke 0 [] ReturnsPromise, Invoke 1 [] ReturnsPromise,
       PayloadSettles 1 (Resolved (JStr ''b''))]
      (init (declared True CacheOff False))"

definition failing_in_flight :: world where
  "failing_in_flight = run plain_ctx
      [Invoke 0 [] ReturnsPromise, WaitForAction, PayloadSettles 0 (Rejected (JStr ''boom''))]
      (init (declared True CacheOff False))"

section \<open>Properties of the dedup cache\<close>

text \<open>
  C7, as the specification states it, fails. With a stored key \<open>[]\<close> and a new key \<open>[]\<close>
  under \<^verbatim>\<open>cache: true\<close>, \<^verbatim>\<open>checkCachedArguments\<close> answers \<open>True\<close>: the call is not
  suppressed.
\<close>

theorem c7_empty_keys_counterexample:
  "checkCachedArguments (JArr 1 [])
     \<lparr>isAsync = False, opts_cache = CacheTrue, opts_latest = False, callCount = 1,
      cachedArguments = JArr 0 []\<rparr>
   = Inr (True,
     \<lparr>isAsync = False, opts_cache = CacheTrue, opts_latest = False, callCount = 1,
      cachedArguments = JArr 0 []\<rparr>)"
  by (simp add: checkCachedArguments_def newCachedArguments_def)

text \<open>
  C7, amended: for an action declared with a cache option, when the stored cache key and
  the newly computed cache key are both empty arrays, \<^verbatim>\<open>checkCachedArguments\<close> returns
  \<open>True\<close> (the invocation runs) and leaves the stored key as it was.
\<close>

theorem c7_empty_keys_run:
  assumes "opts_cache m \<noteq> CacheOff"
    and "cachedArguments m = JArr a []"
    and "newCachedArguments args m = JArr b []"
  shows "checkCachedArguments args m = Inr (True, m)"
  using assms by (cases "opts_cache m") (simp_all add: checkCachedArguments_def)

theorem c7_empty_keys_run_witness:
  "checkCachedArguments (JArr 7 [JNum 3])
     \<lparr>isAsync = True, opts_cache = CacheFn (\<lambda>args. JArr 8 []), opts_latest = False,
      callCount = 2, cachedArguments = JArr 5 []\<rparr>
   = Inr (True,
     \<lparr>isAsync = True, opts_cache = CacheFn (\<lambda>args. JArr 8 []), opts_latest = False,
      callCount = 2, cachedArguments = JArr 5 []\<rparr>)"
  by (rule c7_empty_keys_run [where a = 5 and b = 8]) (simp_all add: newCachedArguments_def)

section \<open>Properties of the reducer\<close>

text \<open>
  C10: the store's own reducer, given a \<^verbatim>\<open>null\<close> or \<^verbatim>\<open>undefined\<close> state, returns the
  store's \<^verbatim>\<open>initialState\<close> whatever the action is: the test \<^verbatim>\<open>state == null\<close> comes before
  the test for reserved types and before the handler lookup.
\<close>

theorem c10_initialReducer_null_state:
  "initialReducer namer store JNull action = initialState store \<and>
   initialReducer namer store JUndefined action = initialState store"
  by (simp add: initialReducer_def loose_eq_null_def)

section \<open>Properties of the subscription notifier\<close>

text \<open>
  Paths are ordered lexicographically, a prefix before its extensions: the order in which
  a depth-first walk that visits a store before its inner stores meets them.
\<close>

lemma path_le_append: "(p::nat list) \<le> p @ q"
  by (cases q) (auto simp: list_le_def list_less_def lexord_append_rightI)

lemma path_sibling_less: "k < k' \<Longrightarrow> (p @ [k]) @ q < (p @ k' # q' :: nat list)"
  by (simp add: list_less_def lexord_append_leftI)

lemma notify_paths:
  "\<forall>c \<in> set (notifySubscribers st p cur prev). \<exists>q. call_path c = p @ q"
  "\<forall>c \<in> set (notifyInner inner p k cur prev). \<exists>k' q. k \<le> k' \<and> call_path c = p @ k' # q"
proof (induction st p cur prev and inner p k cur prev rule: notifySubscribers_notifyInner.induct)
  case (1 s subs en sl sg inner p cur prevState)
  then show ?case by fastforce
next
  case (2 p k cur prevState)
  then show ?case by simp
next
  case (3 st rest p k cur prevState)
  have later: "\<exists>k' q. k \<le> k' \<and> call_path c = p @ k' # q"
    if "c \<in> set (notifyInner rest p (Suc k) cur prevState)" for c
  proof -
    from that "3.IH"(2) obtain k' q where "Suc k \<le> k'" "call_path c = p @ k' # q" by blast
    then show ?thesis by (intro exI[of _ k'] exI[of _ q]) simp
  qed
  show ?case
  proof (cases "selectLocalState st")
    case None
    with later show ?thesis by simp
  next
    case (Some R)
    have "\<exists>k' q. k \<le> k' \<and> call_path c = p @ k' # q"
      if "c \<in> set (notifySubscribers st (p @ [k]) (local_state R cur) (local_state R prevState))"
      for c
    proof -
      from that "3.IH"(1)[OF Some] obtain q where "call_path c = (p @ [k]) @ q" by blast
      then show ?thesis by auto
    qed
    with later Some show ?thesis by auto
  qed
qed

lemma notify_sorted:
  "sorted (map call_path (notifySubscribers st p cur prev))"
  "sorted (map call_path (notifyInner inner p k cur prev))"
proof (induction st p cur prev and inner p k cur prev rule: notifySubscribers_notifyInner.induct)
  case (1 s subs en sl sg inner p cur prevState)
  have own: "sorted (map call_path (map (\<lambda>sub. Call p sub cur prevState) subs))"
    by (induction subs) auto
  have "\<forall>c \<in> set (notifyInner inner p 0 cur prevState). p \<le> call_path c"
    using notify_paths(2)[of inner p 0 cur prevState] path_le_append by metis
  with 1 own show ?case
    by (auto simp: sorted_append)
next
  case (2 p k cur prevState)
  then show ?case by simp
next
  case (3 st rest p k cur prevState)
  show ?case
  proof (cases "selectLocalState st")
    case None
    with "3.IH"(2) show ?thesis by simp
  next
    case (Some R)
    let ?A = "notifySubscribers st (p @ [k]) (local_state R cur) (local_state R prevState)"
    let ?B = "notifyInner rest p (Suc k) cur prevState"
    have "call_path a \<le> call_path b" if "a \<in> set ?A" "b \<in> set ?B" for a b
    proof -
      from that(1) notify_paths(1) obtain q where a: "call_path a = (p @ [k]) @ q" by blast
      from that(2) notify_paths(2) obtain k' q' where b: "Suc k \<le> k'" "call_path b = p @ k' # q'"
        by blast
      from b(1) have "k < k'" by simp
      from path_sibling_less[OF this] a b(2) show ?thesis by (simp add: less_imp_le)
    qed
    with "3.IH"(1)[OF Some] "3.IH"(2) Some show ?thesis
      by (auto simp: sorted_append)
  qed
qed

lemma notify_args:
  "\<forall>c \<in> set (notifySubscribers st p cur prev).
     \<exists>q. call_path c = p @ q \<and> call_state c = project q st cur \<and> call_prev c = project q st prev"
  "\<forall>c \<in> set (notifyInner inner p k cur prev).
     \<exists>j q R. j < length inner \<and> call_path c = p @ (k + j) # q \<and>
        selectLocalState (inner ! j) = Some R \<and>
        call_state c = project q (inner ! j) (local_state R cur) \<and>
        call_prev c = project q (inner ! j) (local_state R prev)"
proof (induction st p cur prev and inner p k cur prev rule: notifySubscribers_notifyInner.induct)
  case (1 s subs en sl sg inner p cur prevState)
  show ?case
  proof
    fix c assume "c \<in> set (notifySubscribers (Store s subs en sl sg inner) p cur prevState)"
    then consider (own) "c \<in> set (map (\<lambda>sub. Call p sub cur prevState) subs)"
      | (inner) "c \<in> set (notifyInner inner p 0 cur prevState)"
      by auto
    then show "\<exists>q. call_path c = p @ q \<and>
        call_state c = project q (Store s subs en sl sg inner) cur \<and>
        call_prev c = project q (Store s subs en sl sg inner) prevState"
    proof cases
      case own
      then show ?thesis by (intro exI[of _ "[]"]) auto
    next
      case inner
      with 1 obtain j q R where jq: "j < length inner" "call_path c = p @ (0 + j) # q"
        "selectLocalState (inner ! j) = Some R"
        "call_state c = project q (inner ! j) (local_state R cur)"
        "call_prev c = project q (inner ! j) (local_state R prevState)"
        by blast
      then show ?thesis by (intro exI[of _ "j # q"]) simp
    qed
  qed
next
  case (2 p k cur prevState)
  then show ?case by simp
next
  case (3 st rest p k cur prevState)
  have later: "\<exists>j q R. j < length (st # rest) \<and> call_path c = p @ (k + j) # q \<and>
        selectLocalState ((st # rest) ! j) = Some R \<and>
        call_state c = project q ((st # rest) ! j) (local_state R cur) \<and>
        call_prev c = project q ((st # rest) ! j) (local_state R prevState)"
    if "c \<in> set (notifyInner rest p (Suc k) cur prevState)" for c
  proof -
    from that "3.IH"(2) obtain j q R where jq: "j < length rest" "call_path c = p @ (Suc k + j) # q"
        "selectLocalState (rest ! j) = Some R"
        "call_state c = project q (rest ! j) (local_state R cur)"
        "call_prev c = project q (rest ! j) (local_state R prevState)"
      by blast
    then show ?thesis by (intro exI[of _ "Suc j"] exI[of _ q] exI[of _ R]) simp
  qed
  show ?case
  proof (cases "selectLocalState st")
    case None
    with later show ?thesis by simp
  next
    case (Some R)
    have "\<exists>j q R. j < length (st # rest) \<and> call_path c = p @ (k + j) # q \<and>
        selectLocalState ((st # rest) ! j) = Some R \<and>
        call_state c = project q ((st # rest) ! j) (local_state R cur) \<and>
        call_prev c = project q ((st # rest) ! j) (local_state R prevState)"
      if "c \<in> set (notifySubscribers st (p @ [k]) (local_state R cur) (local_state R prevState))"
      for c
    proof -
      from that "3.IH"(1)[OF Some] obtain q where "call_path c = (p @ [k]) @ q"
        "call_state c = project q st (local_state R cur)"
        "call_prev c = project q st (local_state R prevState)" by blast
      with Some show ?thesis by (intro exI[of _ 0] exI[of _ q] exI[of _ R]) simp
    qed
    with later Some show ?thesis by auto
  qed
qed

lemma notify_inner_nonempty_path:
  "c \<in> set (notifyInner inner [] 0 cur prev) \<Longrightarrow> call_path c \<noteq> []"
  using notify_paths(2)[of inner "[]" 0 cur prev] by auto

lemma state_field_set [simp]: "state_field (set_state_field v st) = v"
  and subscriptions_set [simp]: "subscriptions (set_state_field v st) = subscriptions st"
  and enabled_set [simp]: "subscriptionsEnabled (set_state_field v st) = subscriptionsEnabled st"
  and innerStores_set [simp]: "innerStores (set_state_field v st) = innerStores st"
  by (cases st; simp add: set_state_field_def)+

lemma project_set [simp]: "project q (set_state_field v st) x = project q st x"
  by (cases q) (simp_all split: option.splits)

lemma notify_unfold:
  "notifySubscribers st p cur prev =
     map (\<lambda>sub. Call p sub cur prev) (subscriptions st) @ notifyInner (innerStores st) p 0 cur prev"
  by (cases st) simp

lemma filter_none: "\<forall>x \<in> set xs. \<not> P x \<Longrightarrow> filter P xs = []"
  by (induction xs) auto

lemma filter_all: "\<forall>x \<in> set xs. P x \<Longrightarrow> filter P xs = xs"
  by (induction xs) auto

lemma calls_at_Nil: "calls_at pth [] st cur prev = map (\<lambda>sub. Call pth sub cur prev) (subscriptions st)"
  by (simp add: calls_at_def)

lemma calls_at_Cons:
  "calls_at pth (j # q) st cur prev =
     (if j < length (innerStores st) then
        (case selectLocalState (innerStores st ! j) of
           None \<Rightarrow> []
         | Some R \<Rightarrow> calls_at pth q (innerStores st ! j) (local_state R cur) (local_state R prev))
      else [])"
  by (simp add: calls_at_def split: option.splits)

lemma notify_filter:
  "\<forall>q. filter (\<lambda>c. call_path c = p @ q) (notifySubscribers st p cur prev)
        = calls_at (p @ q) q st cur prev"
  "\<forall>j q. filter (\<lambda>c. call_path c = p @ (k + j) # q) (notifyInner inner p k cur prev)
        = (if j < length inner then
             (case selectLocalState (inner ! j) of
                None \<Rightarrow> []
              | Some R \<Rightarrow> calls_at (p @ (k + j) # q) q (inner ! j)
                            (local_state R cur) (local_state R prev))
           else [])"
proof (induction st p cur prev and inner p k cur prev rule: notifySubscribers_notifyInner.induct)
  case (1 s subs en sl sg inner p cur prevState)
  let ?own = "map (\<lambda>sub. Call p sub cur prevState) subs"
  let ?inn = "notifyInner inner p 0 cur prevState"
  show ?case
  proof
    fix q
    show "filter (\<lambda>c. call_path c = p @ q)
            (notifySubscribers (Store s subs en sl sg inner) p cur prevState)
          = calls_at (p @ q) q (Store s subs en sl sg inner) cur prevState"
    proof (cases q)
      case Nil
      have a: "filter (\<lambda>c. call_path c = p) ?own = ?own"
        by (intro filter_all) auto
      have b: "filter (\<lambda>c. call_path c = p) ?inn = []"
        using notify_paths(2)[of inner p 0 cur prevState] by (intro filter_none) auto
      from a b Nil show ?thesis by (simp add: calls_at_Nil)
    next
      case (Cons j q')
      have a: "filter (\<lambda>c. call_path c = p @ j # q') ?own = []"
        by (intro filter_none) auto
      from 1 have "filter (\<lambda>c. call_path c = p @ (0 + j) # q') ?inn
          = (if j < length inner then
               (case selectLocalState (inner ! j) of
                  None \<Rightarrow> []
                | Some R \<Rightarrow> calls_at (p @ (0 + j) # q') q' (inner ! j)
                              (local_state R cur) (local_state R prevState))
             else [])"
        by blast
      then have b: "filter (\<lambda>c. call_path c = p @ j # q') ?inn
          = (if j < length inner then
               (case selectLocalState (inner ! j) of
                  None \<Rightarrow> []
                | Some R \<Rightarrow> calls_at (p @ j # q') q' (inner ! j)
                              (local_state R cur) (local_state R prevState))
             else [])"
        by (simp cong: option.case_cong)
      from a b Cons show ?thesis by (simp add: calls_at_Cons cong: option.case_cong)
    qed
  qed
next
  case (2 p k cur prevState)
  then show ?case by simp
next
  case (3 st rest p k cur prevState)
  let ?B = "notifyInner rest p (Suc k) cur prevState"
  show ?case
  proof (intro allI)
    fix j q
    show "filter (\<lambda>c. call_path c = p @ (k + j) # q) (notifyInner (st # rest) p k cur prevState)
        = (if j < length (st # rest) then
             (case selectLocalState ((st # rest) ! j) of
                None \<Rightarrow> []
              | Some R \<Rightarrow> calls_at (p @ (k + j) # q) q ((st # rest) ! j)
                            (local_state R cur) (local_state R prevState))
           else [])"
    proof (cases j)
      case 0
      have b: "filter (\<lambda>c. call_path c = p @ k # q) ?B = []"
      proof (intro filter_none ballI)
        fix c assume "c \<in> set ?B"
        with notify_paths(2)[of rest p "Suc k" cur prevState]
        obtain k' r where "Suc k \<le> k'" "call_path c = p @ k' # r" by blast
        then show "call_path c \<noteq> p @ k # q" by auto
      qed
      show ?thesis
      proof (cases "selectLocalState st")
        case None
        with 0 b show ?thesis by simp
      next
        case (Some R)
        from "3.IH"(1)[OF Some]
        have "filter (\<lambda>c. call_path c = (p @ [k]) @ q)
                (notifySubscribers st (p @ [k]) (local_state R cur) (local_state R prevState))
              = calls_at ((p @ [k]) @ q) q st (local_state R cur) (local_state R prevState)"
          by blast
        with 0 b Some show ?thesis by simp
      qed
    next
      case (Suc j')
      have a: "filter (\<lambda>c. call_path c = p @ (k + Suc j') # q)
                 (case selectLocalState st of
                    None \<Rightarrow> []
                  | Some R \<Rightarrow> notifySubscribers st (p @ [k]) (local_state R cur)
                                (local_state R prevState)) = []"
      proof (cases "selectLocalState st")
        case None
        then show ?thesis by simp
      next
        case (Some R)
        have "filter (\<lambda>c. call_path c = p @ (k + Suc j') # q)
                (notifySubscribers st (p @ [k]) (local_state R cur) (local_state R prevState)) = []"
        proof (intro filter_none ballI)
          fix c
          assume "c \<in> set (notifySubscribers st (p @ [k]) (local_state R cur)
                             (local_state R prevState))"
          with notify_paths(1)[of st "p @ [k]" "local_state R cur" "local_state R prevState"]
          obtain r where "call_path c = (p @ [k]) @ r" by blast
          then show "call_path c \<noteq> p @ (k + Suc j') # q" by auto
        qed
        with Some show ?thesis by simp
      qed
      from "3.IH"(2)
      have "filter (\<lambda>c. call_path c = p @ (Suc k + j') # q) ?B
          = (if j' < length rest then
               (case selectLocalState (rest ! j') of
                  None \<Rightarrow> []
                | Some R \<Rightarrow> calls_at (p @ (Suc k + j') # q) q (rest ! j')
                              (local_state R cur) (local_state R prevState))
             else [])"
        by blast
      then have b: "filter (\<lambda>c. call_path c = p @ Suc (k + j') # q) ?B
          = (if j' < length rest then
               (case selectLocalState (rest ! j') of
                  None \<Rightarrow> []
                | Some R \<Rightarrow> calls_at (p @ Suc (k + j') # q) q (rest ! j')
                              (local_state R cur) (local_state R prevState))
             else [])"
        by (simp cong: option.case_cong)
      from a b Suc show ?thesis by (simp cong: option.case_cong)
    qed
  qed
qed

lemma notified_at_set [simp]: "notified_at q (set_state_field v st) =
   (if q = [] then Some (set_state_field v st) else notified_at q st)"
  by (cases q) (simp_all cong: option.case_cong)

lemma calls_at_set: "calls_at pth q (set_state_field v st) cur prev = calls_at pth q st cur prev"
  by (cases q) (simp_all add: calls_at_def cong: option.case_cong)

text \<open>
  C9, as the specification states it, fails on a store whose subscriptions are disabled:
  \<^verbatim>\<open>setState\<close> changes the state and invokes no subscriber
  (\<^verbatim>\<open>if (this.subscriptionsEnabled) this.notifySubscribers(prevState)\<close>).
\<close>

theorem c9_disabled_counterexample:
  "setState (Store (JNum 1) [1] False None (\<lambda>x. x) []) (JNum 2)
     = (Store (JNum 2) [1] False None (\<lambda>x. x) [], [])"
  by (simp add: setState_def set_state_field_def)

text \<open>
  C9, amended: on every \<^verbatim>\<open>setState\<close> of a root store whose subscriptions are enabled, the
  store's own subscribers are invoked first, each with the new state and the previous
  state; every later call belongs to an inner store; the calls come in depth-first order,
  a store before its inner stores (their paths are sorted); and every call receives the
  new state and the previous state projected through the read projections on the way to
  its store, a projection of a falsy state being \<^verbatim>\<open>undefined\<close>. No call is missing and
  none is made twice: the calls for the store at a path are one call for each of its
  subscribers, in their order, when every inner store on the path has a read projection
  (whether or not its own subscriptions are enabled), and none otherwise. In particular
  each subscriber of an inner store of the root with read projection \<open>R\<close> is called with
  \<open>R\<close> of the new state and \<open>R\<close> of the previous state, \<^verbatim>\<open>undefined\<close> for a falsy one (as
  the previous state is on the first transition); and an inner store without a read
  projection is skipped with every store below it.
\<close>

theorem c9_notification_order:
  assumes "subscriptionsEnabled this"
  shows "take (length (subscriptions this)) (snd (setState this v))
           = map (\<lambda>sub. Call [] sub v (state_field this)) (subscriptions this)
       \<and> (\<forall>c \<in> set (drop (length (subscriptions this)) (snd (setState this v))). call_path c \<noteq> [])
       \<and> sorted (map call_path (snd (setState this v)))
       \<and> (\<forall>c \<in> set (snd (setState this v)).
             call_state c = project (call_path c) this v \<and>
             call_prev c = project (call_path c) this (state_field this))
       \<and> (\<forall>p. filter (\<lambda>c. call_path c = p) (snd (setState this v)) =
             (case notified_at p this of
                None \<Rightarrow> []
              | Some st \<Rightarrow>
                  map (\<lambda>sub. Call p sub (project p this v) (project p this (state_field this)))
                    (subscriptions st)))
       \<and> (\<forall>k R. k < length (innerStores this) \<and> selectLocalState (innerStores this ! k) = Some R \<longrightarrow>
             filter (\<lambda>c. call_path c = [k]) (snd (setState this v)) =
               map (\<lambda>sub. Call [k] sub
                      (if truthy v then R v else JUndefined)
                      (if truthy (state_field this) then R (state_field this) else JUndefined))
                 (subscriptions (innerStores this ! k)))
       \<and> (\<forall>k. k < length (innerStores this) \<and> selectLocalState (innerStores this ! k) = None \<longrightarrow>
             (\<forall>c \<in> set (snd (setState this v)). \<forall>r. call_path c \<noteq> k # r))"
proof -
  let ?this' = "set_state_field v this"
  let ?prev = "state_field this"
  have calls: "snd (setState this v) = notifySubscribers ?this' [] v ?prev"
    using assms by (simp add: setState_def Let_def)
  have split: "notifySubscribers ?this' [] v ?prev =
      map (\<lambda>sub. Call [] sub v ?prev) (subscriptions this)
      @ notifyInner (innerStores this) [] 0 v ?prev"
    by (simp add: notify_unfold)
  have a: "take (length (subscriptions this)) (snd (setState this v))
           = map (\<lambda>sub. Call [] sub v ?prev) (subscriptions this)"
    by (simp add: calls split)
  have b: "\<forall>c \<in> set (drop (length (subscriptions this)) (snd (setState this v))). call_path c \<noteq> []"
    using notify_inner_nonempty_path by (auto simp: calls split)
  have c: "sorted (map call_path (snd (setState this v)))"
    unfolding calls by (rule notify_sorted(1))
  have d: "\<forall>c \<in> set (snd (setState this v)).
             call_state c = project (call_path c) this v \<and>
             call_prev c = project (call_path c) this ?prev"
    unfolding calls using notify_args(1)[of ?this' "[]" v ?prev] by auto
  have e: "filter (\<lambda>c. call_path c = p) (snd (setState this v)) =
             (case notified_at p this of
                None \<Rightarrow> []
              | Some st \<Rightarrow>
                  map (\<lambda>sub. Call p sub (project p this v) (project p this ?prev))
                    (subscriptions st))" for p
  proof -
    from notify_filter(1)[of "[]" ?this' v ?prev]
    have "filter (\<lambda>c. call_path c = p) (notifySubscribers ?this' [] v ?prev)
            = calls_at p p ?this' v ?prev"
      by simp
    then have "filter (\<lambda>c. call_path c = p) (snd (setState this v)) = calls_at p p this v ?prev"
      by (simp add: calls calls_at_set)
    then show ?thesis by (simp add: calls_at_def)
  qed
  have f: "filter (\<lambda>c. call_path c = [k]) (snd (setState this v)) =
               map (\<lambda>sub. Call [k] sub
                      (if truthy v then R v else JUndefined)
                      (if truthy ?prev then R ?prev else JUndefined))
                 (subscriptions (innerStores this ! k))"
    if "k < length (innerStores this)" "selectLocalState (innerStores this ! k) = Some R" for k R
    using e[of "[k]"] that by (simp add: local_state_def)
  have g: "\<forall>c \<in> set (snd (setState this v)). \<forall>r. call_path c \<noteq> k # r"
    if k: "k < length (innerStores this)" "selectLocalState (innerStores this ! k) = None" for k
  proof (intro ballI allI)
    fix c r assume cin: "c \<in> set (snd (setState this v))"
    show "call_path c \<noteq> k # r"
    proof
      assume r: "call_path c = k # r"
      from e[of "k # r"] k have "filter (\<lambda>c. call_path c = k # r) (snd (setState this v)) = []"
        by simp
      with cin r show False by (auto simp: filter_empty_conv)
    qed
  qed
  from a b c d e f g show ?thesis by blast
qed

text \<open>
  Instances of C9: a transition between two truthy states, and the first transition of
  the same tree, where every previous state is \<^verbatim>\<open>undefined\<close>. The inner store with
  disabled subscriptions is notified; the one without a read projection and the store
  below it are not.
\<close>

theorem c9_notification_order_witness:
  "subscriptionsEnabled example_tree
   \<and> snd (setState example_tree (JObj 2 [])) =
     [Call [] 1 (JObj 2 []) (JObj 1 [(''n'', JNum 1)]),
      Call [] 2 (JObj 2 []) (JObj 1 [(''n'', JNum 1)]),
      Call [0] 3 (JNum 7) (JNum 7),
      Call [0, 0] 5 (JNum 7) (JNum 7),
      Call [1] 4 JNull JNull]
   \<and> subscriptionsEnabled fresh_tree
   \<and> state_field fresh_tree = JUndefined
   \<and> snd (setState fresh_tree (JObj 2 [])) =
     [Call [] 1 (JObj 2 []) JUndefined,
      Call [] 2 (JObj 2 []) JUndefined,
      Call [0] 3 (JNum 7) JUndefined,
      Call [0, 0] 5 (JNum 7) JUndefined,
      Call [1] 4 JNull JUndefined]
   \<and> filter (\<lambda>c. call_path c = [0]) (snd (setState fresh_tree (JObj 2 [])))
       = [Call [0] 3 (JNum 7) JUndefined]
   \<and> filter (\<lambda>c. call_path c = [2]) (snd (setState fresh_tree (JObj 2 []))) = []
   \<and> filter (\<lambda>c. call_path c = [2, 0]) (snd (setState fresh_tree (JObj 2 []))) = []
   \<and> sorted (map call_path (snd (setState fresh_tree (JObj 2 []))))"
  using c9_notification_order [of example_tree "JObj 2 []"]
    c9_notification_order [of fresh_tree "JObj 2 []"]
  by (simp add: example_tree_def fresh_tree_def setState_def set_state_field_def
      local_state_def Let_def)

section \<open>Properties of nested store composition\<close>

lemma selectors_attach [simp]:
  "selectLocalState (attach st R W) = Some R"
  "selectGlobalState (attach st R W) = W"
  by (cases st; simp add: attach_def)+

lemma innerStores_addInnerStore:
  "innerStores (addInnerStore this st R W) = innerStores this @ [attach st R W]"
  by (cases this) (simp add: addInnerStore_def)

lemma innerStores_update_at_Cons:
  "innerStores (update_at (k # q) f st) =
     (if k < length (innerStores st)
      then (innerStores st)[k := update_at q f (innerStores st ! k)] else innerStores st)"
  by (cases st) simp

lemma store_at_append:
  "store_at (p @ q) st = (case store_at p st of None \<Rightarrow> None | Some s \<Rightarrow> store_at q s)"
  by (induction p arbitrary: st) simp_all

lemma store_at_update_at:
  "store_at p st = Some this \<Longrightarrow> store_at p (update_at p f st) = Some (f this)"
proof (induction p arbitrary: st)
  case Nil
  then show ?case by simp
next
  case (Cons k q)
  from Cons.prems have k: "k < length (innerStores st)" and
    s: "store_at q (innerStores st ! k) = Some this"
    by (simp_all split: if_splits)
  from Cons.IH[OF s] k show ?case
    by (simp add: innerStores_update_at_Cons del: update_at.simps)
qed

lemma global_value_valid:
  "store_at p st = Some s \<Longrightarrow> \<exists>g. global_value p st v = Inr g"
proof (induction p arbitrary: st)
  case Nil
  then show ?case by simp
next
  case (Cons k q)
  from Cons.prems have k: "k < length (innerStores st)" and
    s: "store_at q (innerStores st ! k) = Some s"
    by (simp_all split: if_splits)
  from Cons.IH[OF s] obtain g where "global_value q (innerStores st ! k) v = Inr g" by blast
  with k show ?case by simp
qed

lemma global_value_append:
  "store_at p st = Some s \<Longrightarrow>
     global_value (p @ q) st v =
       (case global_value q s v of Inl e \<Rightarrow> Inl e | Inr u \<Rightarrow> global_value p st u)"
proof (induction p arbitrary: st)
  case Nil
  then show ?case by (simp split: sum.splits)
next
  case (Cons k p)
  from Cons.prems have k: "k < length (innerStores st)" and
    s: "store_at p (innerStores st ! k) = Some s"
    by (simp_all split: if_splits)
  from Cons.IH[OF s] k show ?case
    by (simp split: sum.splits)
qed

lemma state_get_from_append:
  "store_at p st = Some s \<Longrightarrow>
     state_get_from (p @ q) st x =
       (case state_get_from p st x of Inl e \<Rightarrow> Inl e | Inr y \<Rightarrow> state_get_from q s y)"
proof (induction p arbitrary: st x)
  case Nil
  then show ?case by simp
next
  case (Cons k p)
  from Cons.prems have k: "k < length (innerStores st)" and
    s: "store_at p (innerStores st ! k) = Some s"
    by (simp_all split: if_splits)
  from Cons.IH[OF s] k show ?case
    by (simp split: option.splits)
qed

lemma store_at_set_state_field:
  "store_at p st = Some s \<Longrightarrow>
     \<exists>s'. store_at p (set_state_field g st) = Some s' \<and> innerStores s' = innerStores s"
  by (cases p) (auto split: if_splits)

lemma state_get_from_set [simp]:
  "state_get_from p (set_state_field g st) x = state_get_from p st x"
  by (cases p) (simp_all cong: option.case_cong)

lemma global_value_set [simp]:
  "global_value p (set_state_field g st) v = global_value p st v"
  by (cases p) (simp_all cong: sum.case_cong)

lemma state_get_from_inner:
  "innerStores s' = inner @ [attach st R W] \<Longrightarrow>
     state_get_from [length inner] s' y = Inr (if truthy y then R y else JUndefined)"
  by simp

text \<open>
  C3, as the specification states it, fails three times. With identity projections,
  writing \<open>{a: 5}\<close> through the inner store over a root state \<open>{a: 1, b: 2}\<close> leaves the
  root with \<open>{a: 5}\<close>: the value replaces the state, where a merge keeps \<open>b\<close>. After
  writing \<open>0\<close> the inner store reads \<^verbatim>\<open>undefined\<close>, not \<open>0\<close>: the getter answers only when
  the state above is truthy. And an inner store with identity projections, attached to a
  parent that is itself attached with the read projection \<^verbatim>\<open>x => 7\<close>, reads \<open>7\<close> after
  \<open>"on"\<close> was written to it: the write arrives at the root's field through the parent's
  setter, the read comes back through the parent's getter.
\<close>

theorem c3_counterexample:
  "state_set (add_inner_at parent_ab [] child_plain (\<lambda>x. x) (\<lambda>x. x)) [0] (JObj 2 [(''a'', JNum 5)])
     = Inr (set_state_field (JObj 2 [(''a'', JNum 5)])
              (add_inner_at parent_ab [] child_plain (\<lambda>x. x) (\<lambda>x. x)), [])
   \<and> spec_merge_write (state_field (add_inner_at parent_ab [] child_plain (\<lambda>x. x) (\<lambda>x. x)))
        (JObj 2 [(''a'', JNum 5)])
     = JObj 1 [(''a'', JNum 5), (''b'', JNum 2)]
   \<and> JObj 2 [(''a'', JNum 5)]
     \<noteq> spec_merge_write (state_field (add_inner_at parent_ab [] child_plain (\<lambda>x. x) (\<lambda>x. x)))
        (JObj 2 [(''a'', JNum 5)])
   \<and> state_set (add_inner_at parent_ab [] child_plain (\<lambda>x. x) (\<lambda>x. x)) [0] (JNum 0)
     = Inr (set_state_field (JNum 0)
              (add_inner_at parent_ab [] child_plain (\<lambda>x. x) (\<lambda>x. x)), [])
   \<and> state_get (set_state_field (JNum 0)
        (add_inner_at parent_ab [] child_plain (\<lambda>x. x) (\<lambda>x. x))) [0] = Inr JUndefined
   \<and> state_set (add_inner_at nested_ab [0] child_plain (\<lambda>x. x) (\<lambda>x. x)) [0, 0] (JStr ''on'')
     = Inr (set_state_field (JStr ''on'')
              (add_inner_at nested_ab [0] child_plain (\<lambda>x. x) (\<lambda>x. x)), [])
   \<and> state_get (set_state_field (JStr ''on'')
        (add_inner_at nested_ab [0] child_plain (\<lambda>x. x) (\<lambda>x. x))) [0, 0] = Inr (JNum 7)"
  by (simp add: state_set_def state_get_def add_inner_at_def addInnerStore_def nested_ab_def
      parent_ab_def child_plain_def attach_def set_state_field_def spec_merge_write_def)

text \<open>
  C3, amended: let the store at path \<open>p\<close> of a tree take an inner store by
  \<^verbatim>\<open>addInnerStore\<close> with read projection \<open>R\<close> and write projection \<open>W\<close>. Assigning \<open>v\<close> to
  the inner store's state is assigning \<open>W v\<close> to the state of the store it is attached
  to: for a root that replaces its state field by \<open>W v\<close> (an assignment, not a merge with
  the state it had); for a store that is itself attached the assignment goes through that
  store's own setter, and so on, so that in the end the root's state field is replaced
  and nothing else changes. No subscriber is called. Reading the inner store's state then
  yields \<open>R\<close> of what the store it is attached to reads as its state when that is truthy,
  and \<^verbatim>\<open>undefined\<close> otherwise (and fails where that store's own read fails). So the read
  reproduces \<open>v\<close> whenever the store it is attached to reads back \<open>W v\<close> (as a root always
  does), \<open>W v\<close> is truthy and \<open>R (W v) = v\<close>.
\<close>

theorem c3_inner_write_read:
  assumes "store_at p root = Some this"
    and "root' = add_inner_at root p st R W"
    and "cp = p @ [length (innerStores this)]"
  shows "store_at cp root' = Some (attach st R W)
       \<and> state_set root' [] x = Inr (set_state_field x root', [])
       \<and> state_set root' cp v = state_set root' p (W v)
       \<and> (\<exists>g. state_set root' cp v = Inr (set_state_field g root', []))
       \<and> (p = [] \<longrightarrow> state_set root' cp v = Inr (set_state_field (W v) root', []))
       \<and> (state_set root' cp v = Inr (root'', calls) \<longrightarrow>
            calls = [] \<and>
            subscriptions root'' = subscriptions root' \<and>
            innerStores root'' = innerStores root' \<and>
            state_get root'' cp =
              (case state_get root'' p of
                 Inl e \<Rightarrow> Inl e
               | Inr s \<Rightarrow> Inr (if truthy s then R s else JUndefined)) \<and>
            (p = [] \<longrightarrow> state_get root'' p = Inr (W v)) \<and>
            (state_get root'' p = Inr (W v) \<and> truthy (W v) \<and> R (W v) = v \<longrightarrow>
               state_get root'' cp = Inr v))"
proof -
  let ?n = "length (innerStores this)"
  let ?P = "addInnerStore this st R W"
  from assms(1,2) have P: "store_at p root' = Some ?P"
    by (simp add: add_inner_at_def store_at_update_at)
  have innP: "innerStores ?P = innerStores this @ [attach st R W]"
    by (rule innerStores_addInnerStore)
  have c1: "store_at cp root' = Some (attach st R W)"
    by (simp add: assms(3) store_at_append P innP)
  have c2: "state_set root' [] x = Inr (set_state_field x root', [])"
    by (simp add: state_set_def)
  have gv: "global_value cp root' v = global_value p root' (W v)"
    by (simp add: assms(3) global_value_append[OF P] innP)
  then have c3: "state_set root' cp v = state_set root' p (W v)"
    by (simp add: state_set_def)
  from global_value_valid[OF P, of "W v"] obtain g where g: "global_value p root' (W v) = Inr g"
    by blast
  with gv have c4: "\<exists>g. state_set root' cp v = Inr (set_state_field g root', [])"
    by (auto simp add: state_set_def)
  have c5: "p = [] \<longrightarrow> state_set root' cp v = Inr (set_state_field (W v) root', [])"
    using c3 by (simp add: state_set_def)
  have c6: "calls = [] \<and>
            subscriptions root'' = subscriptions root' \<and>
            innerStores root'' = innerStores root' \<and>
            state_get root'' cp =
              (case state_get root'' p of
                 Inl e \<Rightarrow> Inl e
               | Inr s \<Rightarrow> Inr (if truthy s then R s else JUndefined)) \<and>
            (p = [] \<longrightarrow> state_get root'' p = Inr (W v)) \<and>
            (state_get root'' p = Inr (W v) \<and> truthy (W v) \<and> R (W v) = v \<longrightarrow>
               state_get root'' cp = Inr v)"
    if w: "state_set root' cp v = Inr (root'', calls)"
  proof -
    from w gv g have r'': "root'' = set_state_field g root'" and cl: "calls = []"
      by (simp_all add: state_set_def)
    from store_at_set_state_field[OF P, of g] r'' obtain P' where
      P': "store_at p root'' = Some P'" "innerStores P' = innerStores ?P"
      by blast
    have rd: "state_get root'' cp =
              (case state_get root'' p of
                 Inl e \<Rightarrow> Inl e
               | Inr s \<Rightarrow> Inr (if truthy s then R s else JUndefined))"
      unfolding state_get_def assms(3) state_get_from_append[OF P'(1)]
      using state_get_from_inner[of P' "innerStores this" st R W] P'(2) innP
      by (simp split: sum.splits)
    have rt: "p = [] \<longrightarrow> state_get root'' p = Inr (W v)"
      using g r'' by (auto simp: state_get_def)
    from rd have round: "state_get root'' p = Inr (W v) \<and> truthy (W v) \<and> R (W v) = v \<longrightarrow>
               state_get root'' cp = Inr v"
      by simp
    from cl r'' rd rt round show ?thesis by simp
  qed
  from c1 c2 c3 c4 c5 c6 show ?thesis by blast
qed

text \<open>
  Instances of C3: below a root, \<open>"on"\<close> written through identity projections is read
  back; below a parent attached with the read projection \<^verbatim>\<open>x => 7\<close>, the write is the
  parent's write, the parent reads \<open>7\<close>, and so does the inner store.
\<close>

theorem c3_inner_write_read_witness:
  "store_at [] parent_ab = Some parent_ab
   \<and> state_set (add_inner_at parent_ab [] child_plain (\<lambda>x. x) (\<lambda>x. x)) [0] (JStr ''on'')
     = Inr (set_state_field (JStr ''on'')
              (add_inner_at parent_ab [] child_plain (\<lambda>x. x) (\<lambda>x. x)), [])
   \<and> state_get (set_state_field (JStr ''on'')
        (add_inner_at parent_ab [] child_plain (\<lambda>x. x) (\<lambda>x. x))) [0] = Inr (JStr ''on'')
   \<and> store_at [0] nested_ab = Some (attach child_plain (\<lambda>x. JNum 7) (\<lambda>x. x))
   \<and> state_set (add_inner_at nested_ab [0] child_plain (\<lambda>x. x) (\<lambda>x. x)) [0, 0] (JStr ''on'')
     = state_set (add_inner_at nested_ab [0] child_plain (\<lambda>x. x) (\<lambda>x. x)) [0] (JStr ''on'')
   \<and> state_get (set_state_field (JStr ''on'')
        (add_inner_at nested_ab [0] child_plain (\<lambda>x. x) (\<lambda>x. x))) [0] = Inr (JNum 7)
   \<and> state_get (set_state_field (JStr ''on'')
        (add_inner_at nested_ab [0] child_plain (\<lambda>x. x) (\<lambda>x. x))) [0, 0] = Inr (JNum 7)"
proof -
  have a: "store_at [] parent_ab = Some parent_ab" by simp
  have b: "store_at [0] nested_ab = Some (attach child_plain (\<lambda>x. JNum 7) (\<lambda>x. x))"
    by (simp add: nested_ab_def add_inner_at_def addInnerStore_def parent_ab_def)
  have la: "[0] = [] @ [length (innerStores parent_ab)]"
    by (simp add: parent_ab_def)
  have lb: "[0, 0] = [0] @ [length (innerStores (attach child_plain (\<lambda>x. JNum 7) (\<lambda>x. x)))]"
    by (simp add: attach_def child_plain_def)
  note ta = c3_inner_write_read [OF a refl la, of child_plain "\<lambda>x. x" "\<lambda>x. x" "JStr ''on''"
      "JStr ''on''" "set_state_field (JStr ''on'')
        (add_inner_at parent_ab [] child_plain (\<lambda>x. x) (\<lambda>x. x))" "[]"]
  note tb = c3_inner_write_read [OF b refl lb, of child_plain "\<lambda>x. x" "\<lambda>x. x" "JStr ''on''"
      "JStr ''on''" "set_state_field (JStr ''on'')
        (add_inner_at nested_ab [0] child_plain (\<lambda>x. x) (\<lambda>x. x))" "[]"]
  have pb: "state_get (set_state_field (JStr ''on'')
        (add_inner_at nested_ab [0] child_plain (\<lambda>x. x) (\<lambda>x. x))) [0] = Inr (JNum 7)"
    by (simp add: state_get_def add_inner_at_def addInnerStore_def nested_ab_def
      parent_ab_def child_plain_def attach_def set_state_field_def)
  have sb: "state_set (add_inner_at nested_ab [0] child_plain (\<lambda>x. x) (\<lambda>x. x)) [0] (JStr ''on'')
     = Inr (set_state_field (JStr ''on'')
              (add_inner_at nested_ab [0] child_plain (\<lambda>x. x) (\<lambda>x. x)), [])"
    by (simp add: state_set_def add_inner_at_def addInnerStore_def nested_ab_def
      parent_ab_def child_plain_def attach_def set_state_field_def)
  from ta tb a b pb sb show ?thesis by simp
qed

section \<open>Properties of the dispatch engine\<close>

text \<open>What each operation does to each part of the state.\<close>

lemma emit_fields [simp]:
  "log (emit es w) = log w @ es"
  "meta (emit es w) = meta w"
  "action_state (emit es w) = action_state w"
  "action_deferred (emit es w) = action_deferred w"
  "deferreds (emit es w) = deferreds w"
  "invocations (emit es w) = invocations w"
  "waits (emit es w) = waits w"
  by (simp_all add: emit_def)

lemma add_invocation_fields [simp]:
  "log (add_invocation r ph w) = log w"
  "meta (add_invocation r ph w) = meta w"
  "action_state (add_invocation r ph w) = action_state w"
  "action_deferred (add_invocation r ph w) = action_deferred w"
  "deferreds (add_invocation r ph w) = deferreds w"
  "invocations (add_invocation r ph w) =
     invocations w @ [\<lparr>inv_route = r, inv_phase = ph, inv_awaited = None\<rparr>]"
  "waits (add_invocation r ph w) = waits w"
  by (simp_all add: add_invocation_def)

lemma set_phase_fields [simp]:
  "log (set_phase i ph w) = log w"
  "meta (set_phase i ph w) = meta w"
  "action_state (set_phase i ph w) = action_state w"
  "action_deferred (set_phase i ph w) = action_deferred w"
  "deferreds (set_phase i ph w) = deferreds w"
  "invocations (set_phase i ph w) = (invocations w)[i := (invocations w ! i)\<lparr>inv_phase := ph\<rparr>]"
  "waits (set_phase i ph w) = waits w"
  by (simp_all add: set_phase_def)

lemma finish_fields [simp]:
  "log (finish i a r w) = log w"
  "meta (finish i a r w) = meta w"
  "action_state (finish i a r w) = action_state w"
  "action_deferred (finish i a r w) = action_deferred w"
  "deferreds (finish i a r w) = deferreds w"
  "invocations (finish i a r w) =
     (invocations w)[i := (invocations w ! i)\<lparr>inv_phase := Returned r, inv_awaited := Some a\<rparr>]"
  "waits (finish i a r w) = waits w"
  by (simp_all add: finish_def)

lemma sasd_fields [simp]:
  "log (setActionStateAndDispatch ctx i st p w) =
     log w @ [ActionStateNotified i
                (if parentStore_defined ctx then ParentSubscribers else OwnSubscribers) st,
              StoreDispatch i (TypeWithState st) p]"
  "meta (setActionStateAndDispatch ctx i st p w) = meta w"
  "action_state (setActionStateAndDispatch ctx i st p w) = Some st"
  "action_deferred (setActionStateAndDispatch ctx i st p w) = action_deferred w"
  "deferreds (setActionStateAndDispatch ctx i st p w) = deferreds w"
  "invocations (setActionStateAndDispatch ctx i st p w) = invocations w"
  "waits (setActionStateAndDispatch ctx i st p w) = waits w"
  by (simp_all add: setActionStateAndDispatch_def)

lemma resolve_deferred_fields [simp]:
  "log (resolve_deferred i w) =
     log w @ (case action_deferred w of None \<Rightarrow> [] | Some d \<Rightarrow> [DeferredResolve i d])"
  "meta (resolve_deferred i w) = meta w"
  "action_state (resolve_deferred i w) = action_state w"
  "action_deferred (resolve_deferred i w) = action_deferred w"
  "deferreds (resolve_deferred i w) =
     (case action_deferred w of
        None \<Rightarrow> deferreds w
      | Some d \<Rightarrow> (deferreds w)[d := Deferred_resolve (deferreds w ! d)])"
  "invocations (resolve_deferred i w) = invocations w"
  "waits (resolve_deferred i w) = waits w"
  by (simp_all add: resolve_deferred_def split: option.splits)

lemma reject_deferred_fields [simp]:
  "log (reject_deferred i e w) =
     log w @ (case action_deferred w of
                None \<Rightarrow> []
              | Some d \<Rightarrow> if subscribedTo (deferreds w ! d) then [DeferredReject i d e] else [])"
  "meta (reject_deferred i e w) = meta w"
  "action_state (reject_deferred i e w) = action_state w"
  "action_deferred (reject_deferred i e w) = action_deferred w"
  "deferreds (reject_deferred i e w) =
     (case action_deferred w of
        None \<Rightarrow> deferreds w
      | Some d \<Rightarrow> if subscribedTo (deferreds w ! d)
                  then (deferreds w)[d := Deferred_reject e (deferreds w ! d)]
                  else deferreds w)"
  "invocations (reject_deferred i e w) = invocations w"
  "waits (reject_deferred i e w) = waits w"
  by (simp_all add: reject_deferred_def split: option.splits)

lemma truthy_not_null: "truthy v \<Longrightarrow> \<not> strict_eq v JNull"
  by (cases v) simp_all

lemma run_Nil [simp]: "run ctx [] w = w"
  by (simp add: run_def)

lemma run_Cons [simp]: "run ctx (e # evs) w = run ctx evs (step ctx e w)"
  by (simp add: run_def)

lemma run_snoc: "run ctx (evs @ [e]) w = step ctx e (run ctx evs w)"
  by (simp add: run_def)

lemma lifecycles_append [simp]: "lifecycles i (xs @ ys) = lifecycles i xs @ lifecycles i ys"
  by (simp add: lifecycles_def map_filter_def)

lemma lifecycles_Nil [simp]: "lifecycles i [] = []"
  by (simp add: lifecycles_def map_filter_def)

lemma lifecycles_Cons [simp]:
  "lifecycles i (e # es) =
     (case lifecycle_of i e of None \<Rightarrow> lifecycles i es | Some s \<Rightarrow> s # lifecycles i es)"
  by (simp add: lifecycles_def map_filter_def split: option.splits)

lemma lifecycles_other_tag:
  "\<forall>e \<in> set es. tag e \<noteq> i \<Longrightarrow> lifecycles i es = []"
proof (induction es)
  case Nil
  then show ?case by simp
next
  case (Cons e es)
  then have "lifecycle_of i e = None"
    by (cases "(i, e)" rule: lifecycle_of.cases) auto
  with Cons show ?case by simp
qed


lemma check_false_meta:
  "checkCachedArguments args m = Inr (False, m') \<Longrightarrow> m' = m"
  by (auto simp: checkCachedArguments_def Let_def
      split: cache_opt.splits if_splits jsval.splits sum.splits bool.splits)

lemma wrap_shape:
  assumes "wrapPayloadCreator ctx i b w = (p, w')"
  shows "invocations w' = invocations w \<and> deferreds w' = deferreds w \<and>
         action_deferred w' = action_deferred w \<and> action_state w' = action_state w \<and>
         waits w' = waits w \<and> isAsync (meta w') = isAsync (meta w) \<and>
         (\<exists>es. log w' = log w @ es \<and> (\<forall>e \<in> set es. tag e = i) \<and> (\<forall>j. lifecycles j es = [])) \<and>
         (case p of WPromise ph \<Rightarrow> pending ph | _ \<Rightarrow> True)"
  using assms
  by (auto simp: wrapPayloadCreator_def Let_def split: if_splits payload_behaviour.splits)

lemma dispatch_shape:
  assumes "case p of WPromise ph \<Rightarrow> pending ph | _ \<Rightarrow> True"
  shows "\<exists>r ph es.
      invocations (dispatch ctx i p a xs w) =
        invocations w @ [\<lparr>inv_route = r, inv_phase = ph, inv_awaited = None\<rparr>] \<and>
      log (dispatch ctx i p a xs w) = log w @ es \<and> (\<forall>e \<in> set es. tag e = i) \<and>
      (r = AsyncRoute \<longrightarrow> lifecycles i es = [START] \<and> pending ph)"
  using assms
  by (cases p) (auto simp: dispatch_def Let_def split: option.splits)

lemma action_call_shape:
  "\<exists>r ph es.
      invocations (action_call ctx a xs b w) =
        invocations w @ [\<lparr>inv_route = r, inv_phase = ph, inv_awaited = None\<rparr>] \<and>
      log (action_call ctx a xs b w) = log w @ es \<and>
      (\<forall>e \<in> set es. tag e = length (invocations w)) \<and>
      (r = AsyncRoute \<longrightarrow> lifecycles (length (invocations w)) es = [START] \<and> pending ph)"
proof (cases "checkCachedArguments (JArr a xs) (meta w)")
  case (Inl e)
  then show ?thesis by (simp add: action_call_def)
next
  case (Inr rm)
  obtain run' m' where rm: "rm = (run', m')" by (cases rm)
  show ?thesis
  proof (cases run')
    case False
    with Inr rm show ?thesis by (simp add: action_call_def)
  next
    case True
    let ?n = "length (invocations w)"
    obtain p w2 where wr: "wrapPayloadCreator ctx ?n b (w\<lparr>meta := m'\<rparr>) = (p, w2)"
      by (cases "wrapPayloadCreator ctx ?n b (w\<lparr>meta := m'\<rparr>)")
    from wrap_shape[OF wr] obtain es where
      w2: "invocations w2 = invocations w" "log w2 = log w @ es" "\<forall>e \<in> set es. tag e = ?n"
        "\<forall>j. lifecycles j es = []" "case p of WPromise ph \<Rightarrow> pending ph | _ \<Rightarrow> True"
      by auto
    show ?thesis
    proof (cases "\<exists>e. p = WThrew e")
      case True
      then obtain e where "p = WThrew e" by blast
      with Inr rm \<open>run'\<close> wr w2 show ?thesis
        by (simp add: action_call_def)
    next
      case False
      then have ac: "action_call ctx a xs b w = dispatch ctx ?n p a xs w2"
        using Inr rm \<open>run'\<close> wr by (cases p) (simp_all add: action_call_def)
      from dispatch_shape[OF w2(5), of ctx ?n a xs w2] obtain r ph es' where
        d: "invocations (dispatch ctx ?n p a xs w2) =
              invocations w2 @ [\<lparr>inv_route = r, inv_phase = ph, inv_awaited = None\<rparr>]"
           "log (dispatch ctx ?n p a xs w2) = log w2 @ es'" "\<forall>e \<in> set es'. tag e = ?n"
           "r = AsyncRoute \<longrightarrow> lifecycles ?n es' = [START] \<and> pending ph"
        by blast
      show ?thesis
        unfolding ac
        by (intro exI[of _ r] exI[of _ ph] exI[of _ "es @ es'"])
           (use d w2 in auto)
    qed
  qed
qed

lemma payloadSettles_shape:
  "payloadSettles i r w = w \<or>
   (i < length (invocations w) \<and> pending (inv_phase (invocations w ! i)) \<and>
    (\<exists>r' es. invocations (payloadSettles i r w) =
                 (invocations w)[i := (invocations w ! i)\<lparr>inv_phase := AwaitDispatch r'\<rparr>] \<and>
              log (payloadSettles i r w) = log w @ es \<and>
              (\<forall>e \<in> set es. tag e = i) \<and> (\<forall>j. lifecycles j es = [])))"
  by (auto simp: payloadSettles_def split: phase.splits option.splits settlement.splits)

lemma dispatchResumes_shape:
  "dispatchResumes ctx i w = w \<or>
   (i < length (invocations w) \<and>
    (\<exists>r res es. inv_phase (invocations w ! i) = AwaitDispatch r \<and>
       invocations (dispatchResumes ctx i w) =
         (invocations w)[i := (invocations w ! i)\<lparr>inv_phase := Returned res, inv_awaited := Some r\<rparr>] \<and>
       log (dispatchResumes ctx i w) = log w @ es \<and>
       (\<forall>e \<in> set es. tag e = i) \<and>
       (inv_route (invocations w ! i) = AsyncRoute \<longrightarrow>
          lifecycles i es =
            (case r of
               Resolved v \<Rightarrow> if truthy v then [SUCCESS] else []
             | Rejected e \<Rightarrow> [ERROR]))))"
proof (cases "i < length (invocations w)")
  case False
  then show ?thesis by (simp add: dispatchResumes_def)
next
  case True
  show ?thesis
  proof (cases "inv_phase (invocations w ! i)")
    case (AwaitDispatch r)
    show ?thesis
    proof (cases r)
      case (Resolved v)
      with True AwaitDispatch show ?thesis
        by (auto simp: dispatchResumes_def Let_def truthy_not_null split: option.splits)
    next
      case (Rejected e)
      with True AwaitDispatch show ?thesis
        by (auto simp: dispatchResumes_def Let_def split: option.splits)
    qed
  qed (simp_all add: dispatchResumes_def True)
qed

lemma pending_awaited:
  "pending ph \<Longrightarrow>
     (case ph of Returned r \<Rightarrow> P | Threw x \<Rightarrow> False | _ \<Rightarrow> Q) = Q"
  by (cases ph) simp_all

lemma async_ok_other:
  assumes "async_ok es i iv" and "\<forall>e \<in> set es'. tag e \<noteq> i"
  shows "async_ok (es @ es') i iv"
  using assms by (simp add: async_ok_def lifecycles_other_tag)

lemma engine_inv_action_call:
  assumes "engine_inv w"
  shows "engine_inv (action_call ctx a xs b w)"
proof -
  let ?n = "length (invocations w)"
  from action_call_shape[of ctx a xs b w] obtain r ph es where
    sh: "invocations (action_call ctx a xs b w) =
           invocations w @ [\<lparr>inv_route = r, inv_phase = ph, inv_awaited = None\<rparr>]"
        "log (action_call ctx a xs b w) = log w @ es"
        "\<forall>e \<in> set es. tag e = ?n"
        "r = AsyncRoute \<longrightarrow> lifecycles ?n es = [START] \<and> pending ph"
    by blast
  from assms have tags: "\<forall>e \<in> set (log w). tag e < ?n"
    and old: "\<forall>i < ?n. inv_route (invocations w ! i) = AsyncRoute \<longrightarrow>
                async_ok (log w) i (invocations w ! i)"
    by (auto simp: engine_inv_def)
  have t': "\<forall>e \<in> set (log w @ es). tag e < Suc ?n"
    using tags sh(3) by (auto simp: less_Suc_eq)
  have "async_ok (log w @ es) i
          ((invocations w @ [\<lparr>inv_route = r, inv_phase = ph, inv_awaited = None\<rparr>]) ! i)"
    if i: "i < Suc ?n"
      and rt: "inv_route ((invocations w @ [\<lparr>inv_route = r, inv_phase = ph, inv_awaited = None\<rparr>]) ! i)
               = AsyncRoute" for i
  proof (cases "i < ?n")
    case True
    with rt old have "async_ok (log w) i (invocations w ! i)" by (simp add: nth_append)
    moreover from True sh(3) have "\<forall>e \<in> set es. tag e \<noteq> i" by auto
    ultimately show ?thesis using True by (simp add: async_ok_other nth_append)
  next
    case False
    with i have [simp]: "i = ?n" by simp
    from rt have r: "r = AsyncRoute" by simp
    from tags have "lifecycles ?n (log w) = []"
      by (intro lifecycles_other_tag) auto
    with r sh(4) show ?thesis
      by (simp add: async_ok_def expected_def pending_awaited)
  qed
  with t' show ?thesis
    by (simp add: engine_inv_def sh)
qed

lemma engine_inv_payloadSettles:
  assumes "engine_inv w"
  shows "engine_inv (payloadSettles i r w)"
proof -
  from payloadSettles_shape[of i r w] show ?thesis
  proof
    assume "payloadSettles i r w = w"
    with assms show ?thesis by simp
  next
    assume "i < length (invocations w) \<and> pending (inv_phase (invocations w ! i)) \<and>
      (\<exists>r' es. invocations (payloadSettles i r w) =
                 (invocations w)[i := (invocations w ! i)\<lparr>inv_phase := AwaitDispatch r'\<rparr>] \<and>
              log (payloadSettles i r w) = log w @ es \<and>
              (\<forall>e \<in> set es. tag e = i) \<and> (\<forall>j. lifecycles j es = []))"
    then obtain r' es where sh: "i < length (invocations w)"
      "pending (inv_phase (invocations w ! i))"
      "invocations (payloadSettles i r w) =
         (invocations w)[i := (invocations w ! i)\<lparr>inv_phase := AwaitDispatch r'\<rparr>]"
      "log (payloadSettles i r w) = log w @ es"
      "\<forall>e \<in> set es. tag e = i" "\<forall>j. lifecycles j es = []"
      by blast
    from assms have tags: "\<forall>e \<in> set (log w). tag e < length (invocations w)"
      and old: "\<forall>j < length (invocations w). inv_route (invocations w ! j) = AsyncRoute \<longrightarrow>
                async_ok (log w) j (invocations w ! j)"
      by (auto simp: engine_inv_def)
    have "async_ok (log w @ es) j
            ((invocations w)[i := (invocations w ! i)\<lparr>inv_phase := AwaitDispatch r'\<rparr>] ! j)"
      if j: "j < length (invocations w)"
        and rt: "inv_route ((invocations w)[i := (invocations w ! i)\<lparr>inv_phase := AwaitDispatch r'\<rparr>] ! j)
                 = AsyncRoute" for j
    proof (cases "j = i")
      case True
      with rt sh(1) have "inv_route (invocations w ! i) = AsyncRoute" by simp
      with old sh(1) have ok: "async_ok (log w) i (invocations w ! i)" by blast
      with sh(2) have "inv_awaited (invocations w ! i) = None"
        by (cases "inv_phase (invocations w ! i)") (simp_all add: async_ok_def)
      with ok sh(1,6) True show ?thesis
        by (simp add: async_ok_def expected_def)
    next
      case False
      with rt j old have "async_ok (log w) j (invocations w ! j)" by simp
      with False sh(6) show ?thesis by (simp add: async_ok_def)
    qed
    with tags sh show ?thesis
      by (auto simp: engine_inv_def)
  qed
qed

lemma engine_inv_dispatchResumes:
  assumes "engine_inv w"
  shows "engine_inv (dispatchResumes ctx i w)"
proof -
  from dispatchResumes_shape[of ctx i w] show ?thesis
  proof
    assume "dispatchResumes ctx i w = w"
    with assms show ?thesis by simp
  next
    assume "i < length (invocations w) \<and>
      (\<exists>r res es. inv_phase (invocations w ! i) = AwaitDispatch r \<and>
       invocations (dispatchResumes ctx i w) =
         (invocations w)[i := (invocations w ! i)\<lparr>inv_phase := Returned res, inv_awaited := Some r\<rparr>] \<and>
       log (dispatchResumes ctx i w) = log w @ es \<and>
       (\<forall>e \<in> set es. tag e = i) \<and>
       (inv_route (invocations w ! i) = AsyncRoute \<longrightarrow>
          lifecycles i es =
            (case r of
               Resolved v \<Rightarrow> if truthy v then [SUCCESS] else []
             | Rejected e \<Rightarrow> [ERROR])))"
    then obtain r res es where sh: "i < length (invocations w)"
      "inv_phase (invocations w ! i) = AwaitDispatch r"
      "invocations (dispatchResumes ctx i w) =
         (invocations w)[i := (invocations w ! i)\<lparr>inv_phase := Returned res, inv_awaited := Some r\<rparr>]"
      "log (dispatchResumes ctx i w) = log w @ es"
      "\<forall>e \<in> set es. tag e = i"
      "inv_route (invocations w ! i) = AsyncRoute \<longrightarrow>
          lifecycles i es =
            (case r of
               Resolved v \<Rightarrow> if truthy v then [SUCCESS] else []
             | Rejected e \<Rightarrow> [ERROR])"
      by blast
    from assms have tags: "\<forall>e \<in> set (log w). tag e < length (invocations w)"
      and old: "\<forall>j < length (invocations w). inv_route (invocations w ! j) = AsyncRoute \<longrightarrow>
                async_ok (log w) j (invocations w ! j)"
      by (auto simp: engine_inv_def)
    have "async_ok (log w @ es) j
            ((invocations w)[i := (invocations w ! i)\<lparr>inv_phase := Returned res, inv_awaited := Some r\<rparr>] ! j)"
      if j: "j < length (invocations w)"
        and rt: "inv_route ((invocations w)[i := (invocations w ! i)\<lparr>inv_phase := Returned res, inv_awaited := Some r\<rparr>] ! j)
                 = AsyncRoute" for j
    proof (cases "j = i")
      case True
      with rt sh(1) have ar: "inv_route (invocations w ! i) = AsyncRoute" by simp
      with old sh(1) have ok: "async_ok (log w) i (invocations w ! i)" by blast
      with sh(2) have "lifecycles i (log w) = [START]"
        by (simp add: async_ok_def expected_def)
      with ar sh(1,6) True show ?thesis
        by (cases r) (simp_all add: async_ok_def expected_def)
    next
      case False
      with rt j old have "async_ok (log w) j (invocations w ! j)" by simp
      moreover from False sh(5) have "\<forall>e \<in> set es. tag e \<noteq> j" by auto
      ultimately show ?thesis using False by (simp add: async_ok_other)
    qed
    with tags sh show ?thesis
      by (auto simp: engine_inv_def)
  qed
qed

lemma engine_inv_waitForAction:
  "engine_inv w \<Longrightarrow> engine_inv (waitForAction w)"
  by (simp add: engine_inv_def waitForAction_def split: option.splits)

lemma engine_inv_step: "engine_inv w \<Longrightarrow> engine_inv (step ctx ev w)"
  by (cases ev)
     (simp_all add: engine_inv_action_call engine_inv_payloadSettles
        engine_inv_dispatchResumes engine_inv_waitForAction)

lemma engine_inv_run: "engine_inv w \<Longrightarrow> engine_inv (run ctx evs w)"
  by (induction evs arbitrary: w) (simp_all add: engine_inv_step)

lemma engine_inv_init: "engine_inv (init m)"
  by (simp add: engine_inv_def init_def)

lemmas engine_defs =
  action_call_def wrapPayloadCreator_def dispatch_def payloadSettles_def dispatchResumes_def
  waitForAction_def checkCachedArguments_def newCachedArguments_def startPayload_def
  init_def declared_def plain_ctx_def new_Deferred_def Deferred_resolve_def Deferred_reject_def
  emit_def add_invocation_def set_phase_def finish_def setActionStateAndDispatch_def
  resolve_deferred_def reject_deferred_def wait_result_def deferred_calls_def Let_def

subsection \<open>The dedup veto and the START payload\<close>

text \<open>
  C6: when the dedup check vetoes a call, the call returns a promise already resolved
  with \<^verbatim>\<open>undefined\<close> and nothing else changes: no payload function runs and nothing is
  dispatched (the effects are as before), and the action's lifecycle state, its deferred,
  the deferreds and the metadata are unchanged.
\<close>

theorem c6_vetoed_call:
  assumes "checkCachedArguments (JArr a xs) (meta w) = Inr (False, m')"
  shows "action_call ctx a xs b w = add_invocation Vetoed (Returned (Resolved JUndefined)) w
       \<and> log (action_call ctx a xs b w) = log w
       \<and> action_state (action_call ctx a xs b w) = action_state w
       \<and> action_deferred (action_call ctx a xs b w) = action_deferred w
       \<and> deferreds (action_call ctx a xs b w) = deferreds w
       \<and> meta (action_call ctx a xs b w) = meta w
       \<and> invocations (action_call ctx a xs b w) = invocations w @
            [\<lparr>inv_route = Vetoed, inv_phase = Returned (Resolved JUndefined), inv_awaited = None\<rparr>]"
proof -
  from assms have "m' = meta w" by (rule check_false_meta)
  with assms have "action_call ctx a xs b w
      = add_invocation Vetoed (Returned (Resolved JUndefined)) w"
    by (simp add: action_call_def)
  then show ?thesis by simp
qed

text \<open>An instance of C6: the second of two calls with identical arguments under \<^verbatim>\<open>cache: true\<close>.\<close>

theorem c6_vetoed_call_witness:
  "checkCachedArguments (JArr 1 [JNum 1, JStr ''a'']) (meta cached_once)
     = Inr (False, meta cached_once)
   \<and> log (action_call plain_ctx 1 [JNum 1, JStr ''a''] ReturnsPromise cached_once)
       = [PayloadFnCalled 0, ActionStateNotified 0 OwnSubscribers START,
          StoreDispatch 0 (TypeWithState START) (JArr 0 [JNum 1, JStr ''a''])]
   \<and> action_state (action_call plain_ctx 1 [JNum 1, JStr ''a''] ReturnsPromise cached_once)
       = Some START
   \<and> action_deferred (action_call plain_ctx 1 [JNum 1, JStr ''a''] ReturnsPromise cached_once)
       = Some 0
   \<and> inv_phase (invocations
        (action_call plain_ctx 1 [JNum 1, JStr ''a''] ReturnsPromise cached_once) ! 1)
       = Returned (Resolved JUndefined)"
proof -
  have h: "checkCachedArguments (JArr 1 [JNum 1, JStr ''a'']) (meta cached_once)
     = Inr (False, meta cached_once)"
    by (simp add: cached_once_def engine_defs)
  from c6_vetoed_call [OF h, of plain_ctx ReturnsPromise] h show ?thesis
    by (simp add: cached_once_def engine_defs)
qed

text \<open>
  C8: \<open>START\<close> is dispatched inside the call, before the payload settles, but its payload
  is not the single argument. The source reads index 1 of an argument array of length at
  most 1: the payload is \<^verbatim>\<open>undefined\<close> for no argument and for one argument, and the whole
  argument array for two or more. The call \<open>load(1)\<close> dispatches \<open>START\<close> with
  \<^verbatim>\<open>undefined\<close>, and the call \<open>load("k", 1)\<close> with \<open>["k", 1]\<close>.
\<close>

theorem c8_start_payload:
  "startPayload a xs = (if length xs \<le> 1 then JUndefined else JArr a xs)
   \<and> log (run plain_ctx [Invoke 0 [JNum 1] ReturnsPromise] (init (declared True CacheOff False)))
       = [PayloadFnCalled 0, ActionStateNotified 0 OwnSubscribers START,
          StoreDispatch 0 (TypeWithState START) JUndefined]
   \<and> log (run plain_ctx [Invoke 0 [JStr ''k'', JNum 1] ReturnsPromise]
            (init (declared True CacheOff False)))
       = [PayloadFnCalled 0, ActionStateNotified 0 OwnSubscribers START,
          StoreDispatch 0 (TypeWithState START) (JArr 0 [JStr ''k'', JNum 1])]"
  by (simp add: engine_defs)

subsection \<open>The lifecycle of an async invocation\<close>

text \<open>
  C1, as the specification states it, fails: an async action whose payload resolves to
  \<open>0\<close> dispatches \<open>START\<close> only (\<^verbatim>\<open>const data = await payload || null; if (data !== null)\<close>).
\<close>

theorem c1_falsy_result_counterexample:
  "inv_awaited (invocations (run plain_ctx
      [Invoke 0 [] ReturnsPromise, PayloadSettles 0 (Resolved (JNum 0)), DispatchResumes 0]
      (init (declared True CacheOff False))) ! 0) = Some (Resolved (JNum 0))
   \<and> lifecycles 0 (log (run plain_ctx
      [Invoke 0 [] ReturnsPromise, PayloadSettles 0 (Resolved (JNum 0)), DispatchResumes 0]
      (init (declared True CacheOff False)))) = [START]"
  by (simp add: engine_defs)

text \<open>
  C1, amended: in every run of the engine, an invocation that took the async route has
  dispatched exactly \<open>[START]\<close> while its payload is pending; once \<^verbatim>\<open>dispatch\<close> has
  resumed, exactly \<open>[START, SUCCESS]\<close> when the payload resolved to a truthy value,
  exactly \<open>[START]\<close> when it resolved to a falsy value (\<^verbatim>\<open>undefined\<close>, \<^verbatim>\<open>null\<close>, \<open>0\<close>, ...,
  which is also what a result dropped by \<^verbatim>\<open>latest\<close> arrives as), and exactly
  \<open>[START, ERROR]\<close> when it was rejected. \<open>START\<close> always comes first. The steps of
  other invocations may interleave in any way.
\<close>

theorem c1_lifecycle_sequence:
  assumes "w = run ctx evs (init m)"
    and "i < length (invocations w)"
    and "inv_route (invocations w ! i) = AsyncRoute"
  shows "lifecycles i (log w) =
           (case inv_awaited (invocations w ! i) of
              None \<Rightarrow> [START]
            | Some (Resolved v) \<Rightarrow> if truthy v then [START, SUCCESS] else [START]
            | Some (Rejected e) \<Rightarrow> [START, ERROR])
       \<and> (inv_awaited (invocations w ! i) = None) = pending (inv_phase (invocations w ! i))
       \<and> (inv_awaited (invocations w ! i) \<noteq> None) =
           (\<exists>r. inv_phase (invocations w ! i) = Returned r)"
proof -
  from assms(1) have "engine_inv w"
    by (simp add: engine_inv_run engine_inv_init)
  with assms(2,3) have ok: "async_ok (log w) i (invocations w ! i)"
    by (simp add: engine_inv_def)
  then show ?thesis
    by (cases "inv_phase (invocations w ! i)") (auto simp: async_ok_def expected_def)
qed

text \<open>An instance of C1: the call \<open>load(1)\<close> whose payload resolves to \<open>"x"\<close>.\<close>

theorem c1_lifecycle_sequence_witness:
  "inv_route (invocations (run plain_ctx
      [Invoke 0 [JNum 1] ReturnsPromise, PayloadSettles 0 (Resolved (JStr ''x'')), DispatchResumes 0]
      (init (declared True CacheOff False))) ! 0) = AsyncRoute
   \<and> lifecycles 0 (log (run plain_ctx
      [Invoke 0 [JNum 1] ReturnsPromise, PayloadSettles 0 (Resolved (JStr ''x'')), DispatchResumes 0]
      (init (declared True CacheOff False)))) = [START, SUCCESS]"
  using c1_lifecycle_sequence [OF refl, of 0 plain_ctx
      "[Invoke 0 [JNum 1] ReturnsPromise, PayloadSettles 0 (Resolved (JStr ''x'')), DispatchResumes 0]"
      "declared True CacheOff False"]
  by (simp add: engine_defs)

subsection \<open>The deferred of an action\<close>

lemma deferred_calls_append [simp]:
  "deferred_calls (xs @ ys) = deferred_calls xs @ deferred_calls ys"
  by (simp add: deferred_calls_def)

lemma deferred_calls_simps [simp]:
  "deferred_calls [] = []"
  "deferred_calls (e # es) = (if is_deferred_call e then e # deferred_calls es else deferred_calls es)"
  by (simp_all add: deferred_calls_def)

text \<open>
  C5, as the specification states it, fails twice. Of two overlapping invocations the
  older one, finishing first, calls \<^verbatim>\<open>resolve\<close> on the deferred that the newer one
  created and clears the reference while the newer one is still in flight. And an
  invocation that fails with nobody subscribed clears the reference with neither
  \<^verbatim>\<open>resolve\<close> nor \<^verbatim>\<open>reject\<close> called.
\<close>

theorem c5_counterexample:
  "action_deferred (run plain_ctx
      [Invoke 0 [] ReturnsPromise, Invoke 1 [] ReturnsPromise,
       PayloadSettles 0 (Resolved (JStr ''a'')), DispatchResumes 0]
      (init (declared True CacheOff False))) = None
   \<and> deferred_calls (log (run plain_ctx
      [Invoke 0 [] ReturnsPromise, Invoke 1 [] ReturnsPromise,
       PayloadSettles 0 (Resolved (JStr ''a'')), DispatchResumes 0]
      (init (declared True CacheOff False)))) = [DeferredResolve 0 1]
   \<and> created_by (deferreds (run plain_ctx
      [Invoke 0 [] ReturnsPromise, Invoke 1 [] ReturnsPromise,
       PayloadSettles 0 (Resolved (JStr ''a'')), DispatchResumes 0]
      (init (declared True CacheOff False))) ! 1) = 1
   \<and> inv_phase (invocations (run plain_ctx
      [Invoke 0 [] ReturnsPromise, Invoke 1 [] ReturnsPromise,
       PayloadSettles 0 (Resolved (JStr ''a'')), DispatchResumes 0]
      (init (declared True CacheOff False))) ! 1) = AwaitPayload (Some 2)
   \<and> action_deferred (run plain_ctx
      [Invoke 0 [] ReturnsPromise, PayloadSettles 0 (Rejected (JStr ''boom'')), DispatchResumes 0]
      (init (declared True CacheOff False))) = None
   \<and> deferred_calls (log (run plain_ctx
      [Invoke 0 [] ReturnsPromise, PayloadSettles 0 (Rejected (JStr ''boom'')), DispatchResumes 0]
      (init (declared True CacheOff False)))) = []"
  by (simp add: engine_defs)

text \<open>
  C5, amended: whenever \<^verbatim>\<open>dispatch\<close> resumes from \<^verbatim>\<open>await payload\<close> it ends with the
  action's deferred reference cleared. Before that it calls \<^verbatim>\<open>resolve\<close> on the deferred
  that the reference holds at that moment when the payload resolved, and \<^verbatim>\<open>reject\<close> when
  the payload was rejected and that deferred is subscribed to; with the reference already
  null, or a failure with an unsubscribed deferred, it settles nothing. The deferred is
  the one the reference holds, whichever invocation created it. On the sync path
  \<^verbatim>\<open>dispatch\<close> resolves the deferred it has just created and clears the reference; for a
  promise it leaves the reference at the deferred it has just created.
\<close>

theorem c5_deferred_cleared:
  assumes "i < length (invocations w)"
    and "inv_phase (invocations w ! i) = AwaitDispatch r"
  shows "action_deferred (dispatchResumes ctx i w) = None
       \<and> deferred_calls (log (dispatchResumes ctx i w)) =
           deferred_calls (log w) @
           (case action_deferred w of
              None \<Rightarrow> []
            | Some d \<Rightarrow>
                (case r of
                   Resolved v \<Rightarrow> [DeferredResolve i d]
                 | Rejected e \<Rightarrow>
                     if subscribedTo (deferreds w ! d) then [DeferredReject i d e] else []))
       \<and> action_deferred (dispatch ctx j (WValue v') a xs w) = None
       \<and> deferred_calls (log (dispatch ctx j (WValue v') a xs w)) =
           deferred_calls (log w) @ [DeferredResolve j (length (deferreds w))]
       \<and> action_deferred (dispatch ctx j (WPromise ph) a xs w) = Some (length (deferreds w))
       \<and> deferred_calls (log (dispatch ctx j (WPromise ph) a xs w)) = deferred_calls (log w)"
proof -
  have a: "action_deferred (dispatchResumes ctx i w) = None"
    using assms by (cases r) (simp_all add: dispatchResumes_def Let_def)
  have b: "deferred_calls (log (dispatchResumes ctx i w)) =
           deferred_calls (log w) @
           (case action_deferred w of
              None \<Rightarrow> []
            | Some d \<Rightarrow>
                (case r of
                   Resolved v \<Rightarrow> [DeferredResolve i d]
                 | Rejected e \<Rightarrow>
                     if subscribedTo (deferreds w ! d) then [DeferredReject i d e] else []))"
    using assms
    by (cases r) (simp_all add: dispatchResumes_def Let_def split: option.splits)
  have c: "action_deferred (dispatch ctx j (WValue v') a xs w) = None"
    by (simp add: dispatch_def Let_def)
  have d: "deferred_calls (log (dispatch ctx j (WValue v') a xs w)) =
           deferred_calls (log w) @ [DeferredResolve j (length (deferreds w))]"
    by (simp add: dispatch_def Let_def)
  have e: "action_deferred (dispatch ctx j (WPromise ph) a xs w) = Some (length (deferreds w))"
    by (simp add: dispatch_def Let_def)
  have f: "deferred_calls (log (dispatch ctx j (WPromise ph) a xs w)) = deferred_calls (log w)"
    by (simp add: dispatch_def Let_def)
  from a b c d e f show ?thesis by blast
qed

text \<open>An instance of C5: the newer of two overlapping invocations finishes first.\<close>

theorem c5_deferred_cleared_witness:
  "1 < length (invocations two_in_flight)
   \<and> inv_phase (invocations two_in_flight ! 1) = AwaitDispatch (Resolved (JStr ''b''))
   \<and> action_deferred two_in_flight = Some 1
   \<and> action_deferred (dispatchResumes plain_ctx 1 two_in_flight) = None
   \<and> deferred_calls (log (dispatchResumes plain_ctx 1 two_in_flight)) = [DeferredResolve 1 1]"
proof -
  have h1: "1 < length (invocations two_in_flight)"
    and h2: "inv_phase (invocations two_in_flight ! 1) = AwaitDispatch (Resolved (JStr ''b''))"
    and h3: "action_deferred two_in_flight = Some 1"
    and h4: "deferred_calls (log two_in_flight) = []"
    by (simp_all add: two_in_flight_def engine_defs)
  from c5_deferred_cleared [OF h1 h2, of plain_ctx] h1 h2 h3 h4 show ?thesis
    by simp
qed

subsection \<open>Waiting for an action\<close>

lemma Deferred_resolve_keeps [simp]:
  "subscribedTo (Deferred_resolve d) = subscribedTo d"
  "is_rejected (settled (Deferred_resolve d)) = is_rejected (settled d)"
  by (simp_all add: Deferred_resolve_def)

lemma set_update_all:
  "\<forall>x \<in> set xs. P x \<Longrightarrow> P y \<Longrightarrow> \<forall>x \<in> set (xs[n := y]). P x"
  using set_update_subset_insert[of xs n y] by auto

lemma unsubscribed_wrap:
  assumes "unsubscribed w" and "wrapPayloadCreator ctx i b w = (p, w')"
  shows "unsubscribed w'"
  using assms
  by (auto simp: wrapPayloadCreator_def unsubscribed_def Let_def
      split: if_splits payload_behaviour.splits)

lemma unsubscribed_meta: "unsubscribed w \<Longrightarrow> unsubscribed (w\<lparr>meta := m\<rparr>)"
  by (simp add: unsubscribed_def)

lemma unsubscribed_dispatch:
  assumes "unsubscribed w"
  shows "unsubscribed (dispatch ctx i p a xs w)"
proof (cases p)
  case (WThrew e)
  with assms show ?thesis by (simp add: dispatch_def unsubscribed_def)
next
  case (WValue v)
  with assms show ?thesis
    by (auto simp: dispatch_def unsubscribed_def Let_def new_Deferred_def Deferred_resolve_def)
next
  case (WPromise ph)
  with assms show ?thesis
    by (auto simp: dispatch_def unsubscribed_def Let_def new_Deferred_def)
qed

lemma unsubscribed_action_call:
  assumes "unsubscribed w"
  shows "unsubscribed (action_call ctx a xs b w)"
proof (cases "checkCachedArguments (JArr a xs) (meta w)")
  case (Inl e)
  with assms show ?thesis by (simp add: action_call_def unsubscribed_def)
next
  case (Inr rm)
  obtain run' m' where rm: "rm = (run', m')" by (cases rm)
  show ?thesis
  proof (cases run')
    case False
    with Inr rm assms show ?thesis by (simp add: action_call_def unsubscribed_def)
  next
    case True
    obtain p w2 where wr:
      "wrapPayloadCreator ctx (length (invocations w)) b (w\<lparr>meta := m'\<rparr>) = (p, w2)"
      by (cases "wrapPayloadCreator ctx (length (invocations w)) b (w\<lparr>meta := m'\<rparr>)")
    from unsubscribed_wrap[OF unsubscribed_meta[OF assms] wr] have u2: "unsubscribed w2" .
    show ?thesis
    proof (cases p)
      case (WThrew e)
      with Inr rm True wr u2 show ?thesis
        by (simp add: action_call_def unsubscribed_def)
    next
      case (WValue v)
      with Inr rm True wr unsubscribed_dispatch[OF u2] show ?thesis
        by (simp add: action_call_def)
    next
      case (WPromise ph)
      with Inr rm True wr unsubscribed_dispatch[OF u2] show ?thesis
        by (simp add: action_call_def)
    qed
  qed
qed

lemma unsubscribed_payloadSettles:
  "unsubscribed w \<Longrightarrow> unsubscribed (payloadSettles i r w)"
  by (auto simp: payloadSettles_def unsubscribed_def
      split: phase.splits option.splits settlement.splits)

lemma unsubscribed_dispatchResumes:
  assumes "unsubscribed w"
  shows "unsubscribed (dispatchResumes ctx i w)"
proof (cases "i < length (invocations w)")
  case False
  with assms show ?thesis by (simp add: dispatchResumes_def)
next
  case True
  show ?thesis
  proof (cases "inv_phase (invocations w ! i)")
    case (AwaitDispatch r)
    from assms have all: "\<forall>d \<in> set (deferreds w). \<not> subscribedTo d \<and> \<not> is_rejected (settled d)"
      and rng: "\<forall>d. action_deferred w = Some d \<longrightarrow> d < length (deferreds w)"
      and lg: "\<forall>e \<in> set (log w). \<not> is_reject e"
      by (auto simp: unsubscribed_def)
    show ?thesis
    proof (cases r)
      case (Resolved v)
      have upd: "\<forall>x \<in> set ((deferreds w)[d := Deferred_resolve (deferreds w ! d)]).
                   \<not> subscribedTo x \<and> \<not> is_rejected (settled x)"
        if "d < length (deferreds w)" for d
        using all that by (intro set_update_all) auto
      from True AwaitDispatch Resolved all rng lg upd show ?thesis
        by (auto simp: dispatchResumes_def unsubscribed_def Let_def split: option.splits)
    next
      case (Rejected e)
      have "\<not> subscribedTo (deferreds w ! d)" if "action_deferred w = Some d" for d
        using all rng that by auto
      with True AwaitDispatch Rejected all rng lg show ?thesis
        by (auto simp: dispatchResumes_def unsubscribed_def Let_def split: option.splits)
    qed
  qed (use assms True in \<open>simp_all add: dispatchResumes_def\<close>)
qed

lemma unsubscribed_run:
  "unsubscribed w \<Longrightarrow> WaitForAction \<notin> set evs \<Longrightarrow> unsubscribed (run ctx evs w)"
proof (induction evs arbitrary: w)
  case Nil
  then show ?case by simp
next
  case (Cons ev evs)
  from Cons.prems have "unsubscribed (step ctx ev w)"
    by (cases ev)
       (simp_all add: unsubscribed_action_call unsubscribed_payloadSettles
          unsubscribed_dispatchResumes)
  with Cons show ?case by simp
qed

lemma unsubscribed_init: "unsubscribed (init m)"
  by (simp add: unsubscribed_def init_def)

text \<open>
  C4, as the specification states it, fails: a wait on an invocation that is overtaken by
  a newer invocation before it fails is never rejected. The failing invocation finds the
  newer deferred, which nobody subscribed to, calls no \<^verbatim>\<open>reject\<close> and clears the
  reference; the newer invocation then finds no deferred to resolve. The direct caller
  gets the error, the wait stays pending.
\<close>

theorem c4_counterexample:
  "inv_phase (invocations (run plain_ctx
      [Invoke 0 [] ReturnsPromise, WaitForAction, Invoke 1 [] ReturnsPromise,
       PayloadSettles 0 (Rejected (JStr ''boom'')), DispatchResumes 0,
       PayloadSettles 1 (Resolved (JStr ''ok'')), DispatchResumes 1]
      (init (declared True CacheOff False))) ! 0) = Returned (Rejected (JStr ''boom''))
   \<and> waits (run plain_ctx
      [Invoke 0 [] ReturnsPromise, WaitForAction, Invoke 1 [] ReturnsPromise,
       PayloadSettles 0 (Rejected (JStr ''boom'')), DispatchResumes 0,
       PayloadSettles 1 (Resolved (JStr ''ok'')), DispatchResumes 1]
      (init (declared True CacheOff False))) = [Some 0]
   \<and> wait_result (run plain_ctx
      [Invoke 0 [] ReturnsPromise, WaitForAction, Invoke 1 [] ReturnsPromise,
       PayloadSettles 0 (Rejected (JStr ''boom'')), DispatchResumes 0,
       PayloadSettles 1 (Resolved (JStr ''ok'')), DispatchResumes 1]
      (init (declared True CacheOff False))) 0 = None
   \<and> deferred_calls (log (run plain_ctx
      [Invoke 0 [] ReturnsPromise, WaitForAction, Invoke 1 [] ReturnsPromise,
       PayloadSettles 0 (Rejected (JStr ''boom'')), DispatchResumes 0,
       PayloadSettles 1 (Resolved (JStr ''ok'')), DispatchResumes 1]
      (init (declared True CacheOff False)))) = []"
  by (simp add: engine_defs)

text \<open>
  C4, amended. With no deferred, \<^verbatim>\<open>waitForAction\<close> returns at once. With a deferred, it
  marks it as subscribed to and returns its promise. If the deferred a wait holds is
  still the action's deferred, and pending, when a failed invocation resumes, the wait is
  rejected with the error that the direct caller gets. If the action's deferred is not
  subscribed to (or there is none), a failed invocation calls no \<^verbatim>\<open>reject\<close> and changes no
  deferred: the error goes to the direct caller (and, before that, to the error sink and
  the \<open>ERROR\<close> dispatch). In a run without \<^verbatim>\<open>waitForAction\<close> no deferred is ever rejected.
\<close>

theorem c4_wait_for_action:
  "(action_deferred w = None \<longrightarrow>
      waitForAction w = w\<lparr>waits := waits w @ [None]\<rparr> \<and>
      wait_result (waitForAction w) (length (waits w)) = Some (Resolved JUndefined))
   \<and> (action_deferred w = Some d \<and> d < length (deferreds w) \<longrightarrow>
      waits (waitForAction w) = waits w @ [Some d] \<and>
      action_deferred (waitForAction w) = Some d \<and>
      subscribedTo (deferreds (waitForAction w) ! d) \<and>
      settled (deferreds (waitForAction w) ! d) = settled (deferreds w ! d) \<and>
      invocations (waitForAction w) = invocations w)
   \<and> (i < length (invocations w) \<and> inv_phase (invocations w ! i) = AwaitDispatch (Rejected e) \<and>
      k < length (waits w) \<and> waits w ! k = Some d \<and> action_deferred w = Some d \<and>
      d < length (deferreds w) \<and> subscribedTo (deferreds w ! d) \<and>
      settled (deferreds w ! d) = None \<longrightarrow>
      wait_result (dispatchResumes ctx i w) k = Some (Rejected e) \<and>
      inv_phase (invocations (dispatchResumes ctx i w) ! i) = Returned (Rejected e))
   \<and> (i < length (invocations w) \<and> inv_phase (invocations w ! i) = AwaitDispatch (Rejected e) \<and>
      (case action_deferred w of None \<Rightarrow> True | Some d' \<Rightarrow> \<not> subscribedTo (deferreds w ! d')) \<longrightarrow>
      deferreds (dispatchResumes ctx i w) = deferreds w \<and>
      deferred_calls (log (dispatchResumes ctx i w)) = deferred_calls (log w) \<and>
      inv_phase (invocations (dispatchResumes ctx i w) ! i) = Returned (Rejected e))
   \<and> (WaitForAction \<notin> set evs \<longrightarrow>
      (\<forall>x \<in> set (log (run ctx evs (init m))). \<not> is_reject x) \<and>
      (\<forall>x \<in> set (deferreds (run ctx evs (init m))). \<not> is_rejected (settled x)))"
proof -
  have p1: "action_deferred w = None \<longrightarrow>
      waitForAction w = w\<lparr>waits := waits w @ [None]\<rparr> \<and>
      wait_result (waitForAction w) (length (waits w)) = Some (Resolved JUndefined)"
    by (simp add: waitForAction_def wait_result_def)
  have p2: "action_deferred w = Some d \<and> d < length (deferreds w) \<longrightarrow>
      waits (waitForAction w) = waits w @ [Some d] \<and>
      action_deferred (waitForAction w) = Some d \<and>
      subscribedTo (deferreds (waitForAction w) ! d) \<and>
      settled (deferreds (waitForAction w) ! d) = settled (deferreds w ! d) \<and>
      invocations (waitForAction w) = invocations w"
    by (simp add: waitForAction_def)
  have p3: "i < length (invocations w) \<and> inv_phase (invocations w ! i) = AwaitDispatch (Rejected e) \<and>
      k < length (waits w) \<and> waits w ! k = Some d \<and> action_deferred w = Some d \<and>
      d < length (deferreds w) \<and> subscribedTo (deferreds w ! d) \<and>
      settled (deferreds w ! d) = None \<longrightarrow>
      wait_result (dispatchResumes ctx i w) k = Some (Rejected e) \<and>
      inv_phase (invocations (dispatchResumes ctx i w) ! i) = Returned (Rejected e)"
    by (simp add: dispatchResumes_def wait_result_def Let_def Deferred_reject_def)
  have p4: "i < length (invocations w) \<and> inv_phase (invocations w ! i) = AwaitDispatch (Rejected e) \<and>
      (case action_deferred w of None \<Rightarrow> True | Some d' \<Rightarrow> \<not> subscribedTo (deferreds w ! d')) \<longrightarrow>
      deferreds (dispatchResumes ctx i w) = deferreds w \<and>
      deferred_calls (log (dispatchResumes ctx i w)) = deferred_calls (log w) \<and>
      inv_phase (invocations (dispatchResumes ctx i w) ! i) = Returned (Rejected e)"
    by (auto simp: dispatchResumes_def Let_def split: option.splits)
  have p5: "WaitForAction \<notin> set evs \<longrightarrow>
      (\<forall>x \<in> set (log (run ctx evs (init m))). \<not> is_reject x) \<and>
      (\<forall>x \<in> set (deferreds (run ctx evs (init m))). \<not> is_rejected (settled x))"
  proof
    assume "WaitForAction \<notin> set evs"
    from unsubscribed_run[OF unsubscribed_init this, of ctx m]
    show "(\<forall>x \<in> set (log (run ctx evs (init m))). \<not> is_reject x) \<and>
      (\<forall>x \<in> set (deferreds (run ctx evs (init m))). \<not> is_rejected (settled x))"
      by (simp add: unsubscribed_def)
  qed
  from p1 p2 p3 p4 p5 show ?thesis by blast
qed

text \<open>An instance of C4: a wait on the only invocation in flight, which then fails.\<close>

theorem c4_wait_for_action_witness:
  "waits failing_in_flight = [Some 0]
   \<and> action_deferred failing_in_flight = Some 0
   \<and> inv_phase (invocations failing_in_flight ! 0) = AwaitDispatch (Rejected (JStr ''boom''))
   \<and> wait_result failing_in_flight 0 = None
   \<and> wait_result (dispatchResumes plain_ctx 0 failing_in_flight) 0 = Some (Rejected (JStr ''boom''))
   \<and> inv_phase (invocations (dispatchResumes plain_ctx 0 failing_in_flight) ! 0)
       = Returned (Rejected (JStr ''boom''))
   \<and> wait_result (waitForAction (init (declared True CacheOff False))) 0
       = Some (Resolved JUndefined)"
proof -
  have h: "waits failing_in_flight = [Some 0]"
    "action_deferred failing_in_flight = Some 0"
    "inv_phase (invocations failing_in_flight ! 0) = AwaitDispatch (Rejected (JStr ''boom''))"
    "wait_result failing_in_flight 0 = None"
    "0 < length (invocations failing_in_flight)"
    "0 < length (deferreds failing_in_flight)"
    "subscribedTo (deferreds failing_in_flight ! 0)"
    "settled (deferreds failing_in_flight ! 0) = None"
    by (simp_all add: failing_in_flight_def engine_defs)
  have i: "action_deferred (init (declared True CacheOff False)) = None"
    "waits (init (declared True CacheOff False)) = []"
    by (simp_all add: init_def)
  from c4_wait_for_action [of failing_in_flight 0 0 "JStr ''boom''" 0 plain_ctx "[]"
      "declared True CacheOff False"] h
  have a: "wait_result (dispatchResumes plain_ctx 0 failing_in_flight) 0 = Some (Rejected (JStr ''boom''))
   \<and> inv_phase (invocations (dispatchResumes plain_ctx 0 failing_in_flight) ! 0)
       = Returned (Rejected (JStr ''boom''))"
    by simp
  from c4_wait_for_action [of "init (declared True CacheOff False)" 0 0 JNull 0 plain_ctx "[]"
      "declared True CacheOff False"] i
  have b: "wait_result (waitForAction (init (declared True CacheOff False))) 0
       = Some (Resolved JUndefined)"
    by (simp add: wait_result_def)
  from h a b show ?thesis by simp
qed

subsection \<open>Overlapping invocations under latest\<close>





end
